theory Spec2Isabelle
  imports Main "HOL-Library.Char_ord" "HOL-Library.List_Lexorder"
begin

section \<open>Strings\<close>

text \<open>
  A QString is modelled as a \<^typ>\<open>string\<close>: one \<^typ>\<open>char\<close> per code unit, code
  units below 256 (Latin-1). Within that range \<open>QChar::toLower\<close> maps \<open>A..Z\<close> and
  the accented capitals U+00C0..U+00DE (U+00D7, the multiplication sign, apart) to the
  character 32 places higher, and leaves every other character as it is.
  \<open>QChar::toUpper\<close> maps \<open>a..z\<close> and U+00E0..U+00FE (U+00F7, the division sign, apart) to
  the character 32 places lower; the capitals of U+00B5 and U+00FF lie outside the range
  and no pattern of this range names them, so these two are left as they are.
\<close>

definition toLowerChar :: "char \<Rightarrow> char" where
  "toLowerChar c =
     (let n = (of_char c :: nat)
      in if (65 \<le> n \<and> n \<le> 90) \<or> (192 \<le> n \<and> n \<le> 222 \<and> n \<noteq> 215)
         then char_of (n + 32) else c)"

definition toUpperChar :: "char \<Rightarrow> char" where
  "toUpperChar c =
     (let n = (of_char c :: nat)
      in if (97 \<le> n \<and> n \<le> 122) \<or> (224 \<le> n \<and> n \<le> 254 \<and> n \<noteq> 247)
         then char_of (n - 32) else c)"

definition toLower :: "string \<Rightarrow> string" where
  "toLower s = map toLowerChar s"

text \<open>\<open>QString::replace(before, after)\<close> for one-character strings; it changes the
  string it is called on, so the caller's variable holds the result afterwards.\<close>

definition replaceChar :: "char \<Rightarrow> char \<Rightarrow> string \<Rightarrow> string" where
  "replaceChar old new s = map (\<lambda>c. if c = old then new else c) s"

definition isDigit :: "char \<Rightarrow> bool" where
  "isDigit c = (48 \<le> (of_char c :: nat) \<and> (of_char c :: nat) \<le> 57)"

definition digitValue :: "char \<Rightarrow> int" where
  "digitValue c = int (of_char c) - 48"

definition toNumber :: "string \<Rightarrow> int" where
  "toNumber s = foldl (\<lambda>acc c. 10 * acc + digitValue c) 0 s"

definition digitChar :: "nat \<Rightarrow> char" where
  "digitChar d = char_of (48 + d mod 10)"

text \<open>The last \<open>w\<close> decimal digits of \<open>n\<close>, zero padded.\<close>

fun fixedDigits :: "nat \<Rightarrow> nat \<Rightarrow> string" where
  "fixedDigits 0 n = []"
| "fixedDigits (Suc w) n = fixedDigits w (n div 10) @ [digitChar n]"

text \<open>A field of a date format printed with at least \<open>w\<close> digits.\<close>

fun countDigits :: "nat \<Rightarrow> nat \<Rightarrow> nat" where
  "countDigits 0 n = 0"
| "countDigits (Suc fuel) n = (if n < 10 then 1 else Suc (countDigits fuel (n div 10)))"

definition paddedNumber :: "nat \<Rightarrow> nat \<Rightarrow> string" where
  "paddedNumber w n = fixedDigits (max w (countDigits (Suc n) n)) n"

section \<open>QDateTime\<close>

text \<open>
  The calendar fields of a valid QDateTime, to the second. The local time zone is taken
  to be UTC. A \<open>QDateTime\<close> is \<open>None\<close> when it is null or invalid (a default-constructed
  one, or the result of a failed \<open>fromString\<close>).
\<close>

record CalendarTime =
  year :: int
  month :: int
  day :: int
  hour :: int
  minute :: int
  second :: int

type_synonym QDateTime = "CalendarTime option"

definition isLeapYear :: "int \<Rightarrow> bool" where
  "isLeapYear y0 = (let y = (if y0 < 1 then y0 + 1 else y0)
                    in (y mod 4 = 0 \<and> y mod 100 \<noteq> 0) \<or> y mod 400 = 0)"

definition daysInMonth :: "int \<Rightarrow> int \<Rightarrow> int" where
  "daysInMonth y m =
     (if m = 2 then (if isLeapYear y then 29 else 28)
      else if m = 4 \<or> m = 6 \<or> m = 9 \<or> m = 11 then 30 else 31)"

definition isValidCalendarTime :: "CalendarTime \<Rightarrow> bool" where
  "isValidCalendarTime t =
     (year t \<noteq> 0 \<and> 1 \<le> month t \<and> month t \<le> 12
      \<and> 1 \<le> day t \<and> day t \<le> daysInMonth (year t) (month t)
      \<and> 0 \<le> hour t \<and> hour t \<le> 23 \<and> 0 \<le> minute t \<and> minute t \<le> 59
      \<and> 0 \<le> second t \<and> second t \<le> 59)"

text \<open>Qt's Julian day number of a Gregorian date (there is no year 0).\<close>

definition julianDayFromDate :: "int \<Rightarrow> int \<Rightarrow> int \<Rightarrow> int" where
  "julianDayFromDate year0 mo dy =
     (let yr = (if year0 < 0 then year0 + 1 else year0);
          a = (14 - mo) div 12;
          y = yr + 4800 - a;
          m = mo + 12 * a - 3
      in dy + (153 * m + 2) div 5 + 365 * y + y div 4 - y div 100 + y div 400 - 32045)"

definition toSecsSinceEpoch :: "CalendarTime \<Rightarrow> int" where
  "toSecsSinceEpoch t =
     (julianDayFromDate (year t) (month t) (day t) - 2440588) * 86400
       + hour t * 3600 + minute t * 60 + second t"

text \<open>
  \<open>a > b\<close> on QDateTime, as Qt 5.14 and later define it: an invalid datetime is earlier
  than every valid one and not earlier than an invalid one; two valid ones compare by
  their instant.
\<close>

definition laterThan :: "QDateTime \<Rightarrow> QDateTime \<Rightarrow> bool" where
  "laterThan a b =
     (case b of
        None \<Rightarrow> a \<noteq> None
      | Some tb \<Rightarrow> (case a of None \<Rightarrow> False
                              | Some ta \<Rightarrow> toSecsSinceEpoch tb < toSecsSinceEpoch ta))"

text \<open>The patterns of the source: \<open>DATETIME_FORMAT_RE\<close> is a sequence of digit and
  literal positions, \<open>DATETIME_FORMAT\<close> the same shape read as fields.\<close>

datatype atom = Digit | Lit char

fun matchAtom :: "atom \<Rightarrow> char \<Rightarrow> bool" where
  "matchAtom Digit c = isDigit c"
| "matchAtom (Lit l) c = (c = l)"

definition DATETIME_FORMAT_RE :: "atom list" where
  "DATETIME_FORMAT_RE =
     [Digit, Digit, Digit, Digit, Lit CHR ''-'', Digit, Digit, Lit CHR ''-'', Digit, Digit,
      Lit CHR ''_'', Digit, Digit, Lit CHR ''-'', Digit, Digit, Lit CHR ''-'', Digit, Digit]"

text \<open>\<open>QDateTime::toString("yyyy-MM-dd_HH-mm-ss")\<close>.\<close>

definition toString :: "CalendarTime \<Rightarrow> string" where
  "toString t =
     (if year t < 0 then ''-'' else []) @ paddedNumber 4 (nat \<bar>year t\<bar>) @ ''-''
     @ paddedNumber 2 (nat (month t)) @ ''-'' @ paddedNumber 2 (nat (day t)) @ ''_''
     @ paddedNumber 2 (nat (hour t)) @ ''-'' @ paddedNumber 2 (nat (minute t)) @ ''-''
     @ paddedNumber 2 (nat (second t))"

text \<open>\<open>QDateTime::fromString(s, "yyyy-MM-dd_HH-mm-ss")\<close>: the fields are read at their
  fixed places; the result is invalid when the text has another shape or the fields
  are no date and time of the calendar.\<close>

definition fromString :: "string \<Rightarrow> QDateTime" where
  "fromString s =
     (if list_all2 matchAtom DATETIME_FORMAT_RE s then
        (let t = \<lparr> year = toNumber (take 4 s), month = toNumber (take 2 (drop 5 s)),
                   day = toNumber (take 2 (drop 8 s)), hour = toNumber (take 2 (drop 11 s)),
                   minute = toNumber (take 2 (drop 14 s)),
                   second = toNumber (take 2 (drop 17 s)) \<rparr>
         in if isValidCalendarTime t then Some t else None)
      else None)"

section \<open>File name patterns\<close>

text \<open>
  A name filter of \<open>QDir\<close> / \<open>QDirIterator\<close> is a wildcard pattern of \<open>QRegExp\<close>, matched
  against the whole file name without regard to case (no \<open>QDir::CaseSensitive\<close> flag is
  passed anywhere in the source). \<open>*\<close> stands for any run of characters, \<open>?\<close> for any one
  character, and square brackets enclose a set of characters: an optional \<open>^\<close> first, which
  negates the set, then single characters and ranges \<open>a-z\<close>, up to the closing bracket; a
  closing bracket that comes first in the set is a member of it, and so is a dash that
  no character follows before the set is closed. The backslash has no special meaning.
  A pattern whose set is not closed is invalid and matches no name.
  The source hands the prefix of a rule to the filter as it is, so a prefix with
  brackets is read as a set.
\<close>

datatype wildcard = AnyChar | AnyRun | Literal char | CharSet bool "(char \<times> char) list"

text \<open>Reading a pattern, one character at a time: outside a set, just after the opening
  bracket, just after \<open>[^\<close>, and inside a set, with the ranges read so far, a character
  that may still start a range, and whether a dash has followed it.\<close>

datatype scanMode =
    Outside
  | Opened
  | Negated
  | Inside bool "(char \<times> char) list" "char option" bool

fun closeSet :: "(char \<times> char) list \<Rightarrow> char option \<Rightarrow> bool \<Rightarrow> (char \<times> char) list" where
  "closeSet rs None dash = rs"
| "closeSet rs (Some p) dash = rs @ [(p, p)] @ (if dash then [(CHR ''-'', CHR ''-'')] else [])"

fun setStep :: "bool \<Rightarrow> (char \<times> char) list \<Rightarrow> char option \<Rightarrow> bool \<Rightarrow> char \<Rightarrow> scanMode" where
  "setStep neg rs None dash c = Inside neg rs (Some c) False"
| "setStep neg rs (Some p) False c =
     (if c = CHR ''-'' then Inside neg rs (Some p) True
      else Inside neg (rs @ [(p, p)]) (Some c) False)"
| "setStep neg rs (Some p) True c = Inside neg (rs @ [(p, c)]) None False"

fun wildcardStep :: "wildcard list \<times> scanMode \<Rightarrow> char \<Rightarrow> wildcard list \<times> scanMode" where
  "wildcardStep (ts, Outside) c =
     (if c = CHR ''['' then (ts, Opened)
      else if c = CHR ''*'' then (ts @ [AnyRun], Outside)
      else if c = CHR ''?'' then (ts @ [AnyChar], Outside)
      else (ts @ [Literal c], Outside))"
| "wildcardStep (ts, Opened) c =
     (if c = CHR ''^'' then (ts, Negated)
      else if c = CHR '']'' then (ts, Inside False [] (Some c) False)
      else (ts, setStep False [] None False c))"
| "wildcardStep (ts, Negated) c =
     (if c = CHR '']'' then (ts, Inside True [] (Some c) False)
      else (ts, setStep True [] None False c))"
| "wildcardStep (ts, Inside neg rs pending dash) c =
     (if c = CHR '']'' then (ts @ [CharSet neg (closeSet rs pending dash)], Outside)
      else (ts, setStep neg rs pending dash c))"

definition wildcardTokens :: "string \<Rightarrow> wildcard list option" where
  "wildcardTokens pattern =
     (case foldl wildcardStep ([], Outside) pattern of
        (ts, Outside) \<Rightarrow> Some ts
      | (ts, other) \<Rightarrow> None)"

text \<open>One token against one character, and the tokens of a pattern against a whole
  name. Case is disregarded: a literal is compared in lower case on both sides; a
  character is in a set when its lower-case or its upper-case form is in one of the
  ranges, and passes a negated set when neither form is.\<close>

definition inRanges :: "(char \<times> char) list \<Rightarrow> char \<Rightarrow> bool" where
  "inRanges rs c = list_ex (\<lambda>r. fst r \<le> c \<and> c \<le> snd r) rs"

fun matchOne :: "wildcard \<Rightarrow> char \<Rightarrow> bool" where
  "matchOne AnyChar c = True"
| "matchOne AnyRun c = True"
| "matchOne (Literal p) c = (toLowerChar p = toLowerChar c)"
| "matchOne (CharSet neg rs) c =
     (if neg then \<not> inRanges rs (toLowerChar c) \<and> \<not> inRanges rs (toUpperChar c)
      else inRanges rs (toLowerChar c) \<or> inRanges rs (toUpperChar c))"

fun matchWildcards :: "wildcard list \<Rightarrow> string \<Rightarrow> bool" where
  "matchWildcards [] s = (s = [])"
| "matchWildcards (t # ts) [] = (t = AnyRun \<and> matchWildcards ts [])"
| "matchWildcards (t # ts) (c # cs) =
     (if t = AnyRun then matchWildcards ts (c # cs) \<or> matchWildcards (t # ts) cs
      else matchOne t c \<and> matchWildcards ts cs)"

definition wildcardMatch :: "string \<Rightarrow> string \<Rightarrow> bool" where
  "wildcardMatch pattern s =
     (case wildcardTokens pattern of None \<Rightarrow> False | Some ts \<Rightarrow> matchWildcards ts s)"

text \<open>
  \<open>formatRE\<close> of \<open>getMostRecentBackup\<close>: the escaped format (every character of it a
  literal), the timestamp group, and \<open>.zip\<close>. \<open>exactMatch\<close> matches the whole name,
  case sensitively; \<open>cap 1\<close> is the text of the group.
\<close>

definition formatRE :: "string \<Rightarrow> atom list" where
  "formatRE format = map Lit format @ DATETIME_FORMAT_RE @ map Lit ''.zip''"

definition exactMatch :: "atom list \<Rightarrow> string \<Rightarrow> bool" where
  "exactMatch re s = list_all2 matchAtom re s"

definition cap1 :: "string \<Rightarrow> string \<Rightarrow> string" where
  "cap1 format fileName = take (length DATETIME_FORMAT_RE) (drop (length format) fileName)"

section \<open>The backup directory, the clock and the journal\<close>

text \<open>
  The part of the machine the manager touches. \<open>dirEntries\<close> holds the names of the regular
  files (no symbolic links) of the backup directory in the order the operating system
  enumerates them, or \<open>None\<close> when the directory does not exist; every listing of the
  source asks for \<open>QDir::Files | QDir::NoSymLinks\<close>, so other entries are never seen.
  Whether a file can be opened for writing or removed, and whether the directory can be
  made, is decided by the environment. Every reading of the clock takes the next value
  of \<open>clock\<close>.
\<close>

record World =
  dirEntries :: "string list option"
  mayCreate :: "string \<Rightarrow> bool"
  mayRemove :: "string \<Rightarrow> bool"
  mayMkpath :: bool
  clock :: "nat \<Rightarrow> CalendarTime"
  clockReads :: nat

definition dirExists :: "World \<Rightarrow> bool" where
  "dirExists w = (dirEntries w \<noteq> None)"

definition listDir :: "World \<Rightarrow> string list" where
  "listDir w = (case dirEntries w of None \<Rightarrow> [] | Some es \<Rightarrow> es)"

text \<open>\<open>QDir::mkpath(".")\<close>; its result is not looked at by the source.\<close>

definition mkpath :: "World \<Rightarrow> World" where
  "mkpath w = (case dirEntries w of
                 None \<Rightarrow> if mayMkpath w then w\<lparr>dirEntries := Some []\<rparr> else w
               | Some es \<Rightarrow> w)"

text \<open>Opening a file of the directory for writing creates it when it is not there.\<close>

definition openForWrite :: "string \<Rightarrow> World \<Rightarrow> bool \<times> World" where
  "openForWrite f w =
     (case dirEntries w of
        None \<Rightarrow> (False, w)
      | Some es \<Rightarrow> if mayCreate w f
                   then (True, w\<lparr>dirEntries := Some (if f \<in> set es then es else es @ [f])\<rparr>)
                   else (False, w))"

definition removeFile :: "string \<Rightarrow> World \<Rightarrow> bool \<times> World" where
  "removeFile f w =
     (case dirEntries w of
        None \<Rightarrow> (False, w)
      | Some es \<Rightarrow> if f \<in> set es \<and> mayRemove w f
                   then (True, w\<lparr>dirEntries := Some (removeAll f es)\<rparr>)
                   else (False, w))"

definition currentDateTime :: "World \<Rightarrow> CalendarTime \<times> World" where
  "currentDateTime w = (clock w (clockReads w), w\<lparr>clockReads := Suc (clockReads w)\<rparr>)"

text \<open>\<open>QDir::entryInfoList({pattern}, QDir::Files | QDir::NoSymLinks, QDir::Name)\<close>: the
  matching names, sorted by name (code units compared, case sensitively).\<close>

definition entryInfoList :: "string \<Rightarrow> World \<Rightarrow> string list" where
  "entryInfoList pattern w = sort (filter (wildcardMatch pattern) (listDir w))"

text \<open>
  What a run does besides changing the directory: the lines it logs (the streamed pieces
  of a \<open>qDebug\<close>, \<open>qCDebug\<close> or \<open>qCritical\<close> line; error codes and dumps of objects are left
  out), the files it opens, closes and removes by path, with the outcome, and the calls
  of the handlers. A handler is known by its label only; \<open>CreateBackup h zip opened\<close> is
  the call \<open>h.createBackup(zip)\<close> with the archive's path and whether the archive is open.
\<close>

type_synonym BackupHandler = string

datatype piece = Str string | Num int | Flag bool

datatype channel = QDebug | QCDebug | QCritical

datatype event =
    Log channel "piece list"
  | OpenFile string bool
  | CloseFile string
  | RemoveFile string bool
  | CreateBackup BackupHandler string bool

definition isLog :: "event \<Rightarrow> bool" where
  "isLog e = (case e of Log c ps \<Rightarrow> True | _ \<Rightarrow> False)"

section \<open>The manager\<close>

record BackupRule =
  name :: string
  intervalSeconds :: int
  extensionFormat :: string
  maxBackupVersions :: int
  lastBackupSeconds :: int

record Manager =
  backupDirectory :: string
  backupRules :: "BackupRule list"
  backupHandlers :: "BackupHandler list"

text \<open>One object of the \<open>backups\<close> array of the settings. \<open>cfgBackupInterval\<close> and
  \<open>cfgMaxBackupVersions\<close> are the integers that lines 70 to 82 of the source read from
  the fields \<open>backupInterval\<close> and \<open>maxBackupVersions\<close> (a number, or a string holding
  one).\<close>

record BackupSetting =
  cfgName :: string
  cfgFormat :: string
  cfgBackupInterval :: int
  cfgMaxBackupVersions :: int

subsection \<open>getMostRecentBackup\<close>

text \<open>The body of the loop over the directory for one file name: the best file so far,
  and the line logged.\<close>

definition scanStep ::
  "string \<Rightarrow> string \<Rightarrow> string \<Rightarrow> bool \<times> string \<times> QDateTime
     \<Rightarrow> (bool \<times> string \<times> QDateTime) \<times> event" where
  "scanStep dir format fileName best =
     (case best of (bestBackupFound, bestBackupFile, bestBackupFileTime) \<Rightarrow>
        if exactMatch (formatRE format) fileName then
          (let datetime = cap1 format fileName;
               createdAt = fromString datetime
           in if createdAt = None
              then (best, Log QDebug [Str ''Skipping backup with invalid timestamp: '', Str datetime])
              else (if laterThan createdAt bestBackupFileTime
                    then (True, dir @ ''/'' @ fileName, createdAt)
                    else best,
                    Log QDebug [Str ''Checking '', Str (dir @ ''/'' @ fileName)]))
        else (best, Log QDebug [Str ''NO match: '', Str fileName]))"

fun scanEntries ::
  "string \<Rightarrow> string \<Rightarrow> string list \<Rightarrow> bool \<times> string \<times> QDateTime
     \<Rightarrow> (bool \<times> string \<times> QDateTime) \<times> event list" where
  "scanEntries dir format [] best = (best, [])"
| "scanEntries dir format (fileName # rest) best =
     (case scanStep dir format fileName best of (best1, e) \<Rightarrow>
        (case scanEntries dir format rest best1 of (best2, es) \<Rightarrow> (best2, e # es)))"

text \<open>The two reference parameters are passed in and handed back: the result is the
  returned flag, then \<open>mostRecentBackupFileName\<close> and \<open>mostRecentBackupTime\<close> as they are
  after the call.\<close>

definition getMostRecentBackup ::
  "Manager \<Rightarrow> World \<Rightarrow> string \<Rightarrow> string \<Rightarrow> QDateTime
     \<Rightarrow> (bool \<times> string \<times> QDateTime) \<times> event list" where
  "getMostRecentBackup m w format mostRecentBackupFileName mostRecentBackupTime =
     (let filters = format @ ''*.zip''
      in case scanEntries (backupDirectory m) format
                (filter (wildcardMatch filters) (listDir w)) (False, [], None) of
           ((bestBackupFound, bestBackupFile, bestBackupFileTime), es) \<Rightarrow>
             (if bestBackupFound
              then (True, bestBackupFile, bestBackupFileTime)
              else (False, mostRecentBackupFileName, mostRecentBackupTime), es))"

definition getMostRecentBackupTimeInSecs ::
  "Manager \<Rightarrow> World \<Rightarrow> string \<Rightarrow> int \<times> event list" where
  "getMostRecentBackupTimeInSecs m w format =
     (case getMostRecentBackup m w format [] None of
        ((recentBackup, mostRecentBackupFileName, mostRecentBackupTime), es) \<Rightarrow>
          (if recentBackup
           then (case mostRecentBackupTime of Some t \<Rightarrow> toSecsSinceEpoch t | None \<Rightarrow> 0)
           else 0, es))"

subsection \<open>parseSettings\<close>

definition parseRule ::
  "Manager \<Rightarrow> BackupSetting \<Rightarrow> World \<Rightarrow> (BackupRule \<times> World) \<times> event list" where
  "parseRule m obj w =
     (let interval = cfgBackupInterval obj;
          count = cfgMaxBackupVersions obj;
          name0 = cfgName obj;
          format0 = cfgFormat obj;
          name1 = replaceChar CHR '' '' CHR ''_'' name0;
          format1 = toLower name1 @ ''-'';
          es1 = [Log QCDebug [Str ''    Name:'', Str name1],
                 Log QCDebug [Str ''        format:'', Str format1],
                 Log QCDebug [Str ''        interval:'', Num interval],
                 Log QCDebug [Str ''        count:'', Num count]];
          newRule = \<lparr> name = name1, intervalSeconds = interval, extensionFormat = format1,
                      maxBackupVersions = count, lastBackupSeconds = 0 \<rparr>
      in case getMostRecentBackupTimeInSecs m w format1 of (secs, es2) \<Rightarrow>
           (let newRule1 = newRule\<lparr>lastBackupSeconds := secs\<rparr>
            in if lastBackupSeconds newRule1 > 0
               then (case currentDateTime w of (now, w1) \<Rightarrow>
                      ((newRule1, w1),
                       es1 @ es2 @ [Log QCDebug [Str ''        lastBackup:'',
                          Num (toSecsSinceEpoch now - lastBackupSeconds newRule1), Str ''ago'']]))
               else ((newRule1, w), es1 @ es2 @ [Log QCDebug [Str ''        lastBackup: NEVER'']])))"

fun parseRules ::
  "Manager \<Rightarrow> BackupSetting list \<Rightarrow> World \<Rightarrow> (Manager \<times> World) \<times> event list" where
  "parseRules m [] w = ((m, w), [])"
| "parseRules m (obj # objs) w =
     (case parseRule m obj w of ((newRule, w1), es1) \<Rightarrow>
        (case parseRules (m\<lparr>backupRules := backupRules m @ [newRule]\<rparr>) objs w1 of
           (r, es2) \<Rightarrow> (r, es1 @ es2)))"

text \<open>\<open>settings\<close> is the array under the key \<open>backups\<close>, or \<open>None\<close> when there is no array
  there.\<close>

definition parseSettings ::
  "Manager \<Rightarrow> BackupSetting list option \<Rightarrow> World \<Rightarrow> (Manager \<times> World) \<times> event list" where
  "parseSettings m settings w =
     (case settings of
        Some rules \<Rightarrow>
          (case parseRules m rules w of
             (r, es) \<Rightarrow> (r, [Log QDebug [Flag True], Log QCDebug [Str ''BACKUP RULES:'']] @ es))
      | None \<Rightarrow> ((m, w), [Log QDebug [Flag False], Log QCDebug [Str ''BACKUP RULES: NONE'']]))"

subsection \<open>removeOldBackupVersions\<close>

text \<open>The loop \<open>for (int i = 0; i < backupsToDelete; ++i)\<close> over its indices.\<close>

fun removeLoop :: "string \<Rightarrow> string list \<Rightarrow> nat list \<Rightarrow> World \<Rightarrow> World \<times> event list" where
  "removeLoop dir matchingFiles [] w = (w, [])"
| "removeLoop dir matchingFiles (i # rest) w =
     (let fileInfo = dir @ ''/'' @ matchingFiles ! i
      in case removeFile (matchingFiles ! i) w of (removed, w1) \<Rightarrow>
           (case removeLoop dir matchingFiles rest w1 of (w2, es) \<Rightarrow>
              (w2, [RemoveFile fileInfo removed,
                    Log QCDebug [Str (if removed then ''Removed old backup: ''
                                      else ''Failed to remove old backup: ''), Str fileInfo]] @ es)))"

definition removeOldBackupVersions :: "Manager \<Rightarrow> BackupRule \<Rightarrow> World \<Rightarrow> World \<times> event list" where
  "removeOldBackupVersions m rule w =
     (if dirExists w \<and> maxBackupVersions rule > 0 then
        (let matchingFiles = entryInfoList (extensionFormat rule @ ''*.zip'') w;
             backupsToDelete = int (length matchingFiles) - maxBackupVersions rule
         in case removeLoop (backupDirectory m) matchingFiles [0 ..< nat backupsToDelete] w of
              (w1, es) \<Rightarrow>
                (w1, [Log QCDebug [Str ''Rolling old backup versions for rule'', Str (name rule),
                                   Str ''...'']]
                     @ es @ [Log QCDebug [Str ''Done rolling old backup versions...'']]))
      else (w, [Log QCDebug [Str ''Rolling backups for rule'', Str (name rule), Str ''.'',
                             Str '' Max Rolled Backup Versions less than 1 ['',
                             Num (maxBackupVersions rule), Str ''].'',
                             Str '' No need to roll backups...'']]))"

subsection \<open>backup\<close>

text \<open>The body of the loop over the rules, for one rule.\<close>

definition backupRule ::
  "Manager \<Rightarrow> int \<Rightarrow> BackupRule \<Rightarrow> World \<Rightarrow> (BackupRule \<times> World) \<times> event list" where
  "backupRule m nowSeconds rule w =
     (let secondsSinceLastBackup = nowSeconds - lastBackupSeconds rule;
          checking = Log QCDebug [Str ''Checking ['', Str (name rule),
                       Str ''] - Time since last backup ['', Num secondsSinceLastBackup, Str ''] '',
                       Str ''compared to backup interval ['', Num (intervalSeconds rule), Str '']...'']
      in if secondsSinceLastBackup > intervalSeconds rule then
           (case currentDateTime w of (stamp, w1) \<Rightarrow>
              (let timestamp = toString stamp;
                   fileName = ''backup-'' @ extensionFormat rule @ timestamp @ ''.zip'';
                   zipName = backupDirectory m @ ''/'' @ fileName
               in case openForWrite fileName w1 of (opened, w2) \<Rightarrow>
                    (let rule1 = rule\<lparr>lastBackupSeconds := nowSeconds\<rparr>
                     in case removeOldBackupVersions m rule1 w2 of (w3, es) \<Rightarrow>
                          ((rule1, w3),
                           [checking,
                            Log QCDebug [Str ''Time since last backup ['', Num secondsSinceLastBackup,
                              Str ''] for rule ['', Str (name rule), Str ''] exceeds backup interval ['',
                              Num (intervalSeconds rule), Str ''] doing backup now...''],
                            OpenFile zipName opened]
                           @ (if \<not> opened
                              then [Log QDebug [Str ''Could not open backup archive:'', Str zipName],
                                    Log QDebug [Str ''    ERROR:'']]
                              else [])
                           @ map (\<lambda>handler. CreateBackup handler zipName opened) (backupHandlers m)
                           @ [CloseFile zipName, Log QDebug [Str ''Created backup: '', Str fileName]]
                           @ es))))
         else ((rule, w),
               [checking, Log QCDebug [Str ''Backup not needed for this rule ['', Str (name rule),
                                       Str '']...'']]))"

fun backupLoop ::
  "Manager \<Rightarrow> int \<Rightarrow> BackupRule list \<Rightarrow> World \<Rightarrow> (BackupRule list \<times> World) \<times> event list" where
  "backupLoop m nowSeconds [] w = (([], w), [])"
| "backupLoop m nowSeconds (rule # rules) w =
     (case backupRule m nowSeconds rule w of ((rule1, w1), es1) \<Rightarrow>
        (case backupLoop m nowSeconds rules w1 of ((rules1, w2), es2) \<Rightarrow>
           ((rule1 # rules1, w2), es1 @ es2)))"

definition backup :: "Manager \<Rightarrow> World \<Rightarrow> (Manager \<times> World) \<times> event list" where
  "backup m w =
     (case currentDateTime w of (nowDateTime, w1) \<Rightarrow>
        (let nowSeconds = toSecsSinceEpoch nowDateTime
         in case backupLoop m nowSeconds (backupRules m) w1 of ((rules1, w2), es) \<Rightarrow>
              ((m\<lparr>backupRules := rules1\<rparr>, w2), es)))"

subsection \<open>persist\<close>

definition persist :: "Manager \<Rightarrow> World \<Rightarrow> (Manager \<times> World) \<times> event list" where
  "persist m w =
     (let lockFileName = backupDirectory m @ ''/running.lock''
      in case openForWrite ''running.lock'' (mkpath w) of (isOpen, w1) \<Rightarrow>
           if isOpen then
             (case backup m w1 of ((m1, w2), es) \<Rightarrow>
                (case removeFile ''running.lock'' w2 of (removed, w3) \<Rightarrow>
                   ((m1, w3),
                    [OpenFile lockFileName True] @ es
                    @ [CloseFile lockFileName, RemoveFile lockFileName removed])))
           else ((m, w1), [OpenFile lockFileName False]))"

section \<open>Notions used to state the properties\<close>

text \<open>
  An entry that the loop of \<open>getMostRecentBackup\<close> takes into account: its name matches
  \<open>formatRE\<close> as a whole and the captured text is a valid date and time. \<open>instantOf\<close> is
  the parsed timestamp of such an entry in seconds since the epoch, and \<open>candidates\<close> are
  the entries of the directory that pass the name filter and are taken into account.
\<close>

definition validEntry :: "string \<Rightarrow> string \<Rightarrow> bool" where
  "validEntry format e = (exactMatch (formatRE format) e \<and> fromString (cap1 format e) \<noteq> None)"

definition instantOf :: "string \<Rightarrow> string \<Rightarrow> int" where
  "instantOf format e = (case fromString (cap1 format e) of Some t \<Rightarrow> toSecsSinceEpoch t | None \<Rightarrow> 0)"

definition candidates :: "World \<Rightarrow> string \<Rightarrow> string list" where
  "candidates w format =
     filter (\<lambda>e. wildcardMatch (format @ ''*.zip'') e \<and> validEntry format e) (listDir w)"


text \<open>The files that one run of \<open>removeOldBackupVersions\<close> tries to remove: the first
  \<open>length - maxBackupVersions\<close> names of the sorted listing.\<close>

definition doomed :: "BackupRule \<Rightarrow> World \<Rightarrow> string list" where
  "doomed rule w =
     (let matching = entryInfoList (extensionFormat rule @ ''*.zip'') w
      in take (nat (int (length matching) - maxBackupVersions rule)) matching)"


text \<open>The paths handed to \<open>QFile::remove\<close> or \<open>remove\<close>, the archives opened and the
  lines logged in a journal.\<close>

fun attemptedRemovals :: "event list \<Rightarrow> string list" where
  "attemptedRemovals [] = []"
| "attemptedRemovals (RemoveFile p ok # es) = p # attemptedRemovals es"
| "attemptedRemovals (e # es) = attemptedRemovals es"

fun openedFiles :: "event list \<Rightarrow> (string \<times> bool) list" where
  "openedFiles [] = []"
| "openedFiles (OpenFile p ok # es) = (p, ok) # openedFiles es"
| "openedFiles (e # es) = openedFiles es"

fun handlerCalls :: "event list \<Rightarrow> event list" where
  "handlerCalls [] = []"
| "handlerCalls (CreateBackup h p ok # es) = CreateBackup h p ok # handlerCalls es"
| "handlerCalls (e # es) = handlerCalls es"

text \<open>A rule is due when the time since its last backup exceeds its interval;
  \<open>archiveName\<close> is the file name that \<open>backup\<close> builds for a rule and a reading of the
  clock.\<close>

definition due :: "int \<Rightarrow> BackupRule \<Rightarrow> bool" where
  "due nowSeconds rule = (nowSeconds - lastBackupSeconds rule > intervalSeconds rule)"

definition archiveName :: "BackupRule \<Rightarrow> CalendarTime \<Rightarrow> string" where
  "archiveName rule stamp = ''backup-'' @ extensionFormat rule @ toString stamp @ ''.zip''"


text \<open>A name ends in \<open>.zip\<close>, in any case of the letters.\<close>

definition endsWithZip :: "string \<Rightarrow> bool" where
  "endsWithZip s = (map toLowerChar (drop (length s - 4) s) = ''.zip'')"

text \<open>A number of runs of \<open>backup\<close>, one after the other.\<close>

fun fireCycles :: "nat \<Rightarrow> Manager \<Rightarrow> World \<Rightarrow> Manager \<times> World" where
  "fireCycles 0 m w = (m, w)"
| "fireCycles (Suc n) m w = (case fst (backup m w) of (m1, w1) \<Rightarrow> fireCycles n m1 w1)"

text \<open>The order of the calendar on dates and times, field by field, and the parts into
  which the Julian day number is taken apart to compare it with that order: the leap
  days up to a year, the day number at which a year and a month begin.\<close>

definition calendarBefore :: "CalendarTime \<Rightarrow> CalendarTime \<Rightarrow> bool" where
  "calendarBefore a b =
     (year a < year b \<or> year a = year b \<and>
       (month a < month b \<or> month a = month b \<and>
         (day a < day b \<or> day a = day b \<and>
           (hour a < hour b \<or> hour a = hour b \<and>
             (minute a < minute b \<or> minute a = minute b \<and> second a < second b)))))"

definition leapDays :: "int \<Rightarrow> int" where
  "leapDays y = y div 4 - y div 100 + y div 400"

definition leapDay :: "int \<Rightarrow> int" where
  "leapDay y = (if isLeapYear y then 1 else 0)"

definition yearBase :: "int \<Rightarrow> int" where
  "yearBase y = 365 * (y + 4799) + leapDays (y + 4799) - 32045"

definition monthBase :: "int \<Rightarrow> int \<Rightarrow> int" where
  "monthBase y m =
     (if m = 1 then 306 else if m = 2 then 337 else
      leapDay y + (if m = 3 then 365 else if m = 4 then 396 else if m = 5 then 426
                   else if m = 6 then 457 else if m = 7 then 487 else if m = 8 then 518
                   else if m = 9 then 549 else if m = 10 then 579 else if m = 11 then 610
                   else 640))"

section \<open>Example data\<close>

text \<open>A clock that is read twice a cycle, two days on at every cycle; a directory in
  which everything is permitted; a manager with two handlers; the rule \<open>Daily\<close>.\<close>

definition exampleClock :: "nat \<Rightarrow> CalendarTime" where
  "exampleClock n = \<lparr> year = 2024, month = 1, day = 1 + 2 * int (n div 2), hour = 0,
                       minute = 0, second = int (n mod 2) \<rparr>"

definition allow :: "string \<Rightarrow> bool" where
  "allow f = True"

definition deny :: "string \<Rightarrow> bool" where
  "deny f = False"

definition exampleWorld :: "string list \<Rightarrow> World" where
  "exampleWorld es = \<lparr> dirEntries = Some es, mayCreate = allow, mayRemove = allow,
                        mayMkpath = True, clock = exampleClock, clockReads = 0 \<rparr>"

definition exampleManager :: Manager where
  "exampleManager = \<lparr> backupDirectory = ''/backups'', backupRules = [],
                       backupHandlers = [''entities'', ''assets''] \<rparr>"

definition dailySetting :: BackupSetting where
  "dailySetting = \<lparr> cfgName = ''Daily'', cfgFormat = ''%N-%D'', cfgBackupInterval = 86400,
                     cfgMaxBackupVersions = 3 \<rparr>"

definition dailyRule :: BackupRule where
  "dailyRule = \<lparr> name = ''Daily'', intervalSeconds = 86400, extensionFormat = ''daily-'',
                  maxBackupVersions = 3, lastBackupSeconds = 0 \<rparr>"

definition mixedDirectory :: "string list" where
  "mixedDirectory = [''daily-2024-01-01_00-00-00.zip'', ''daily-2024-13-01_00-00-00.zip'',
                     ''daily-2024-06-01_00-00-00.zip'', ''notes.txt'']"

definition fiveArchives :: "string list" where
  "fiveArchives = [''daily-2024-03-01_00-00-00.zip'', ''daily-2024-01-01_00-00-00.zip'',
                   ''notes.txt'', ''daily-2024-04-01_00-00-00.zip'',
                   ''daily-2024-02-01_00-00-00.zip'', ''daily-2024-05-01_00-00-00.zip'']"


definition readOnlyWorld :: World where
  "readOnlyWorld = (exampleWorld [])\<lparr>mayCreate := deny\<rparr>"

definition exampleScenarioDirectory :: "string list" where
  "exampleScenarioDirectory = [''backup-daily-2024-01-01_00-00-00.zip'',
                               ''backup-daily-2024-06-01_00-00-00.zip'']"

text \<open>A rule whose name has brackets, and a directory with a file named after its prefix
  and one that the prefix, read as a wildcard, lets through.\<close>

definition bracketSetting :: BackupSetting where
  "bracketSetting = \<lparr> cfgName = ''A[b]'', cfgFormat = ''%N-%D'', cfgBackupInterval = 86400,
                       cfgMaxBackupVersions = 3 \<rparr>"

definition bracketDirectory :: "string list" where
  "bracketDirectory = [''a[b]-2024-06-01_00-00-00.zip'', ''ab-2024-01-01_00-00-00.zip'']"

text \<open>Archives of which the latest has its prefix in capitals, and a directory from which
  nothing can be removed.\<close>

definition mixedCaseArchives :: "string list" where
  "mixedCaseArchives = [''daily-2024-01-01_00-00-00.zip'', ''daily-2024-02-01_00-00-00.zip'',
                        ''daily-2024-03-01_00-00-00.zip'', ''DAILY-2025-01-01_00-00-00.zip'']"

definition stickyWorld :: "string list \<Rightarrow> World" where
  "stickyWorld es = (exampleWorld es)\<lparr>mayRemove := deny\<rparr>"

section \<open>Lemmas on the scan of the directory\<close>

lemma scanStep_invalid: "\<not> validEntry format e \<Longrightarrow> fst (scanStep dir format e best) = best"
  by (cases best) (auto simp: scanStep_def validEntry_def Let_def)

lemma scanStep_valid:
  "validEntry format e \<Longrightarrow>
   fst (scanStep dir format e (b, f, t)) =
     (if laterThan (fromString (cap1 format e)) t
      then (True, dir @ ''/'' @ e, fromString (cap1 format e)) else (b, f, t))"
  by (auto simp: scanStep_def validEntry_def Let_def)

lemma scanEntries_Cons:
  "fst (scanEntries dir format (e # es) best) =
   fst (scanEntries dir format es (fst (scanStep dir format e best)))"
  by (simp split: prod.splits)

lemma scanEntries_skip:
  "fst (scanEntries dir format es best) =
   fst (scanEntries dir format (filter (validEntry format) es) best)"
proof (induction es arbitrary: best)
  case Nil
  show ?case by simp
next
  case (Cons e es)
  show ?case
  proof (cases "validEntry format e")
    case True
    then show ?thesis using Cons.IH by (simp only: filter.simps if_True scanEntries_Cons)
  next
    case False
    then show ?thesis using Cons.IH
      by (simp add: scanEntries_Cons scanStep_invalid del: scanEntries.simps)
  qed
qed

lemma scanEntries_none:
  "\<forall>e\<in>set es. \<not> validEntry format e \<Longrightarrow> fst (scanEntries dir format es best) = best"
proof (induction es arbitrary: best)
  case Nil
  show ?case by simp
next
  case (Cons e es)
  then show ?case by (simp only: scanEntries_Cons) (simp add: scanStep_invalid)
qed

lemma laterThan_valid:
  "validEntry format g \<Longrightarrow> validEntry format e \<Longrightarrow>
   laterThan (fromString (cap1 format g)) (fromString (cap1 format e))
     = (instantOf format e < instantOf format g)"
  by (auto simp: laterThan_def validEntry_def instantOf_def split: option.splits)

lemma scanEntries_keep:
  assumes "validEntry format e"
    and "\<forall>g\<in>set es. validEntry format g \<longrightarrow> instantOf format g \<le> instantOf format e"
  shows "fst (scanEntries dir format es (True, p, fromString (cap1 format e)))
         = (True, p, fromString (cap1 format e))"
  using assms(2)
proof (induction es)
  case Nil
  show ?case by simp
next
  case (Cons g es)
  have step: "fst (scanStep dir format g (True, p, fromString (cap1 format e)))
              = (True, p, fromString (cap1 format e))"
  proof (cases "validEntry format g")
    case True
    with Cons.prems have "instantOf format g \<le> instantOf format e" by simp
    with True assms(1) show ?thesis by (simp add: scanStep_valid laterThan_valid)
  next
    case False
    then show ?thesis by (rule scanStep_invalid)
  qed
  from Cons show ?case by (simp only: scanEntries_Cons step) simp
qed

lemma scanEntries_max:
  assumes v: "validEntry format e"
    and "e \<in> set es"
    and "\<forall>g\<in>set es. validEntry format g \<and> g \<noteq> e \<longrightarrow> instantOf format g < instantOf format e"
    and "t = None \<or> (\<exists>g. validEntry format g \<and> t = fromString (cap1 format g)
                          \<and> instantOf format g < instantOf format e)"
  shows "fst (scanEntries dir format es (b, f, t))
         = (True, dir @ ''/'' @ e, fromString (cap1 format e))"
  using assms(2-4)
proof (induction es arbitrary: b f t)
  case Nil
  then show ?case by simp
next
  case (Cons x es)
  show ?case
  proof (cases "x = e")
    case True
    have later: "laterThan (fromString (cap1 format e)) t"
      using Cons.prems(3) v
      by (auto simp: laterThan_valid) (simp add: laterThan_def validEntry_def)
    have le: "\<forall>g\<in>set es. validEntry format g \<longrightarrow> instantOf format g \<le> instantOf format e"
      using Cons.prems(2) by (metis list.set_intros(2) order_less_imp_le order_refl)
    show ?thesis
      using True v later scanEntries_keep[OF v le]
      by (simp only: scanEntries_Cons scanStep_valid if_True)
  next
    case False
    with Cons.prems(1) have mem: "e \<in> set es" by simp
    have rest: "\<forall>g\<in>set es. validEntry format g \<and> g \<noteq> e \<longrightarrow> instantOf format g < instantOf format e"
      using Cons.prems(2) by simp
    show ?thesis
    proof (cases "validEntry format x")
      case vx: True
      have lt: "instantOf format x < instantOf format e"
        using Cons.prems(2) vx False by simp
      show ?thesis
      proof (cases "laterThan (fromString (cap1 format x)) t")
        case True
        have "fst (scanEntries dir format es (True, dir @ ''/'' @ x, fromString (cap1 format x)))
              = (True, dir @ ''/'' @ e, fromString (cap1 format e))"
          by (rule Cons.IH[OF mem rest]) (use vx lt in blast)
        then show ?thesis using vx True by (simp only: scanEntries_Cons scanStep_valid if_True)
      next
        case False
        have "fst (scanEntries dir format es (b, f, t))
              = (True, dir @ ''/'' @ e, fromString (cap1 format e))"
          by (rule Cons.IH[OF mem rest Cons.prems(3)])
        then show ?thesis using vx False by (simp only: scanEntries_Cons scanStep_valid if_False)
      qed
    next
      case False
      have "fst (scanEntries dir format es (b, f, t))
            = (True, dir @ ''/'' @ e, fromString (cap1 format e))"
        by (rule Cons.IH[OF mem rest Cons.prems(3)])
      then show ?thesis using False
        by (simp add: scanEntries_Cons scanStep_invalid del: scanEntries.simps)
    qed
  qed
qed

lemma scanEntries_found:
  "fst (fst (scanEntries dir format es (b, f, t))) \<Longrightarrow> b \<or> (\<exists>e\<in>set es. validEntry format e)"
  using scanEntries_none[of es format dir "(b, f, t)"] by (cases "\<exists>e\<in>set es. validEntry format e") auto

lemma getMostRecentBackup_fst:
  "fst (getMostRecentBackup m w format f0 t0) =
     (case fst (scanEntries (backupDirectory m) format (candidates w format) (False, [], None)) of
        (found, f, t) \<Rightarrow> if found then (True, f, t) else (False, f0, t0))"
proof -
  have "filter (validEntry format) (filter (wildcardMatch (format @ ''*.zip'')) (listDir w))
        = candidates w format"
    by (simp add: candidates_def conj_commute)
  then have "fst (scanEntries (backupDirectory m) format (filter (wildcardMatch (format @ ''*.zip'')) (listDir w)) (False, [], None))
     = fst (scanEntries (backupDirectory m) format (candidates w format) (False, [], None))"
    using scanEntries_skip[of "backupDirectory m" format "filter (wildcardMatch (format @ ''*.zip'')) (listDir w)"] by simp
  then show ?thesis
    by (auto simp: getMostRecentBackup_def Let_def split: prod.splits)
qed

lemma scanEntries_found_iff:
  "b = (t \<noteq> None) \<Longrightarrow>
   fst (fst (scanEntries dir format es (b, f, t))) = (b \<or> (\<exists>e\<in>set es. validEntry format e))"
proof (induction es arbitrary: b f t)
  case Nil
  show ?case by simp
next
  case (Cons x es)
  show ?case
  proof (cases "validEntry format x")
    case False
    then show ?thesis using Cons.IH[OF Cons.prems, of f]
      by (simp add: scanEntries_Cons scanStep_invalid del: scanEntries.simps)
  next
    case vx: True
    then obtain tx where tx: "fromString (cap1 format x) = Some tx"
      by (auto simp: validEntry_def)
    show ?thesis
    proof (cases "laterThan (fromString (cap1 format x)) t")
      case True
      have "fst (fst (scanEntries dir format es (True, dir @ ''/'' @ x, fromString (cap1 format x))))
            = (True \<or> (\<exists>e\<in>set es. validEntry format e))"
        by (rule Cons.IH) (simp add: tx)
      then show ?thesis using vx True
        by (simp add: scanEntries_Cons scanStep_valid del: scanEntries.simps)
    next
      case False
      then have "t \<noteq> None" by (auto simp: laterThan_def tx split: option.splits)
      with Cons.prems have b by simp
      then show ?thesis using vx False Cons.IH[OF Cons.prems, of f]
        by (simp add: scanEntries_Cons scanStep_valid del: scanEntries.simps)
    qed
  qed
qed

lemma candidates_set:
  "e \<in> set (candidates w format) \<longleftrightarrow>
   e \<in> set (listDir w) \<and> wildcardMatch (format @ ''*.zip'') e \<and> validEntry format e"
  by (auto simp: candidates_def)

lemma candidates_idem:
  "candidates (w\<lparr>dirEntries := Some (candidates w format)\<rparr>) format = candidates w format"
  by (simp add: candidates_def listDir_def)


section \<open>Lemmas on the removal of old versions\<close>

lemma removeFile_world:
  assumes es: "dirEntries w = Some es"
  shows "snd (removeFile f w) = w\<lparr>dirEntries := Some (filter (\<lambda>g. \<not> (g = f \<and> mayRemove w f)) es)\<rparr>"
proof (cases "f \<in> set es \<and> mayRemove w f")
  case True
  then have "removeAll f es = filter (\<lambda>g. \<not> (g = f \<and> mayRemove w f)) es"
    by (auto simp: removeAll_filter_not_eq intro!: filter_cong)
  with True es show ?thesis by (simp add: removeFile_def)
next
  case False
  then have "filter (\<lambda>g. \<not> (g = f \<and> mayRemove w f)) es = es"
    by (auto simp: filter_id_conv)
  with False es show ?thesis by (auto simp: removeFile_def)
qed

lemma removeFile_result:
  "fst (removeFile f w) = (f \<in> set (listDir w) \<and> mayRemove w f)"
  by (auto simp: removeFile_def listDir_def split: option.splits)

lemma removeLoop_world:
  "dirEntries w = Some es \<Longrightarrow>
   fst (removeLoop dir files idxs w)
     = w\<lparr>dirEntries := Some (filter (\<lambda>g. \<not> (g \<in> (\<lambda>i. files ! i) ` set idxs \<and> mayRemove w g)) es)\<rparr>"
proof (induction idxs arbitrary: w es)
  case Nil
  then show ?case by simp
next
  case (Cons i idxs)
  let ?w1 = "w\<lparr>dirEntries := Some (filter (\<lambda>g. \<not> (g = files ! i \<and> mayRemove w (files ! i))) es)\<rparr>"
  have w1: "snd (removeFile (files ! i) w) = ?w1"
    using Cons.prems by (rule removeFile_world)
  have unfold: "fst (removeLoop dir files (i # idxs) w)
                = fst (removeLoop dir files idxs (snd (removeFile (files ! i) w)))"
    by (simp add: Let_def split: prod.splits)
  have "fst (removeLoop dir files idxs ?w1)
        = ?w1\<lparr>dirEntries := Some (filter (\<lambda>g. \<not> (g \<in> (\<lambda>i. files ! i) ` set idxs \<and> mayRemove ?w1 g))
                                   (filter (\<lambda>g. \<not> (g = files ! i \<and> mayRemove w (files ! i))) es))\<rparr>"
    by (rule Cons.IH) simp
  moreover have "filter (\<lambda>g. \<not> (g \<in> (\<lambda>i. files ! i) ` set idxs \<and> mayRemove ?w1 g))
                   (filter (\<lambda>g. \<not> (g = files ! i \<and> mayRemove w (files ! i))) es)
                 = filter (\<lambda>g. \<not> (g \<in> (\<lambda>i. files ! i) ` set (i # idxs) \<and> mayRemove w g)) es"
    by (auto intro: filter_cong)
  ultimately show ?case unfolding unfold w1 by simp
qed

lemma removeLoop_None:
  "dirEntries w = None \<Longrightarrow> fst (removeLoop dir files idxs w) = w"
  by (induction idxs) (auto simp: removeFile_def Let_def split: prod.splits)

lemma nth_image_upt: "k \<le> length xs \<Longrightarrow> (\<lambda>i. xs ! i) ` set [0 ..< k] = set (take k xs)"
  using nth_image[of k xs] by simp

lemma removeOld_fst:
  "fst (removeOldBackupVersions m rule w) =
     (if dirExists w \<and> maxBackupVersions rule > 0
      then fst (removeLoop (backupDirectory m) (entryInfoList (extensionFormat rule @ ''*.zip'') w)
                  [0 ..< nat (int (length (entryInfoList (extensionFormat rule @ ''*.zip'') w))
                              - maxBackupVersions rule)] w)
      else w)"
  by (simp add: removeOldBackupVersions_def Let_def split: prod.splits)

lemma removeOld_world:
  assumes "maxBackupVersions rule > 0"
  shows "listDir (fst (removeOldBackupVersions m rule w))
         = filter (\<lambda>g. \<not> (g \<in> set (doomed rule w) \<and> mayRemove w g)) (listDir w)"
proof (cases "dirEntries w")
  case None
  then show ?thesis by (simp add: removeOld_fst dirExists_def listDir_def)
next
  case (Some es)
  let ?S = "entryInfoList (extensionFormat rule @ ''*.zip'') w"
  let ?k = "nat (int (length ?S) - maxBackupVersions rule)"
  have k: "?k \<le> length ?S" using assms by simp
  have "fst (removeLoop (backupDirectory m) ?S [0 ..< ?k] w)
        = w\<lparr>dirEntries := Some (filter (\<lambda>g. \<not> (g \<in> set (take ?k ?S) \<and> mayRemove w g)) es)\<rparr>"
    using removeLoop_world[OF Some, of "backupDirectory m" ?S "[0 ..< ?k]"] nth_image_upt[OF k]
    by simp
  then show ?thesis using Some assms
    by (simp add: removeOld_fst dirExists_def listDir_def doomed_def Let_def)
qed

lemma sort_filter_drop:
  assumes "distinct es"
  shows "sort (filter (\<lambda>g. g \<notin> set (take k (sort (filter P es)))) (filter P es))
         = drop k (sort (filter P es))"
proof -
  define S where "S = sort (filter P es)"
  have dS: "distinct S" and sS: "sorted S" and setS: "set S = set (filter P es)"
    using assms by (simp_all add: S_def)
  have u: "set S = set (take k S) \<union> set (drop k S)"
    by (metis append_take_drop_id set_append)
  have "distinct (take k S @ drop k S)" using dS by (simp only: append_take_drop_id)
  then have "set (take k S) \<inter> set (drop k S) = {}" by (simp only: distinct_append)
  with u have d: "set S - set (take k S) = set (drop k S)" by blast
  have "set (sort (filter (\<lambda>g. g \<notin> set (take k S)) (filter P es))) = set (filter P es) - set (take k S)"
    by (simp only: set_sort set_filter) blast
  with d setS have s: "set (sort (filter (\<lambda>g. g \<notin> set (take k S)) (filter P es))) = set (drop k S)"
    by simp
  have "sort (filter (\<lambda>g. g \<notin> set (take k S)) (filter P es)) = drop k S"
  proof (rule sorted_distinct_set_unique)
    show "sorted (sort (filter (\<lambda>g. g \<notin> set (take k S)) (filter P es)))" by (rule sorted_sort)
    show "distinct (sort (filter (\<lambda>g. g \<notin> set (take k S)) (filter P es)))"
      using assms by (simp only: distinct_sort distinct_filter)
    show "sorted (drop k S)" using sS by (rule sorted_wrt_drop)
    show "distinct (drop k S)" using dS by (rule distinct_drop)
    show "set (sort (filter (\<lambda>g. g \<notin> set (take k S)) (filter P es))) = set (drop k S)" by (rule s)
  qed
  then show ?thesis by (simp only: S_def)
qed

lemma removeLoop_snd:
  "snd (removeLoop dir files (i # rest) w)
     = [RemoveFile (dir @ ''/'' @ files ! i) (fst (removeFile (files ! i) w)),
        Log QCDebug [Str (if fst (removeFile (files ! i) w) then ''Removed old backup: ''
                          else ''Failed to remove old backup: ''), Str (dir @ ''/'' @ files ! i)]]
       @ snd (removeLoop dir files rest (snd (removeFile (files ! i) w)))"
  by (simp add: Let_def split: prod.splits)

lemma removeLoop_attempts:
  "attemptedRemovals (snd (removeLoop dir files idxs w)) = map (\<lambda>i. dir @ ''/'' @ files ! i) idxs"
proof (induction idxs arbitrary: w)
  case Nil
  show ?case by simp
next
  case (Cons i idxs)
  show ?case by (simp only: removeLoop_snd) (simp add: Cons.IH)
qed

lemma removeOld_snd:
  "snd (removeOldBackupVersions m rule w) =
     (if dirExists w \<and> maxBackupVersions rule > 0
      then [Log QCDebug [Str ''Rolling old backup versions for rule'', Str (name rule), Str ''...'']]
           @ snd (removeLoop (backupDirectory m) (entryInfoList (extensionFormat rule @ ''*.zip'') w)
                  [0 ..< nat (int (length (entryInfoList (extensionFormat rule @ ''*.zip'') w))
                              - maxBackupVersions rule)] w)
           @ [Log QCDebug [Str ''Done rolling old backup versions...'']]
      else [Log QCDebug [Str ''Rolling backups for rule'', Str (name rule), Str ''.'',
                             Str '' Max Rolled Backup Versions less than 1 ['',
                             Num (maxBackupVersions rule), Str ''].'',
                             Str '' No need to roll backups...'']])"
  by (simp add: removeOldBackupVersions_def Let_def split: prod.splits)

lemma map_nth_upt_take: "k \<le> length xs \<Longrightarrow> map (\<lambda>i. f (xs ! i)) [0 ..< k] = map f (take k xs)"
  by (rule nth_equalityI) simp_all

lemma attemptedRemovals_append:
  "attemptedRemovals (xs @ ys) = attemptedRemovals xs @ attemptedRemovals ys"
  by (induction xs rule: attemptedRemovals.induct) simp_all

lemma doomed_length:
  "0 < maxBackupVersions rule \<Longrightarrow>
   int (length (doomed rule w))
     = max 0 (int (length (entryInfoList (extensionFormat rule @ ''*.zip'') w)) - maxBackupVersions rule)"
  by (simp add: doomed_def Let_def)

lemma removeOld_attempts:
  "attemptedRemovals (snd (removeOldBackupVersions m rule w))
     = (if 0 < maxBackupVersions rule
        then map (\<lambda>f. backupDirectory m @ ''/'' @ f) (doomed rule w) else [])"
proof (cases "0 < maxBackupVersions rule")
  case False
  then show ?thesis by (simp add: removeOld_snd)
next
  case pos: True
  let ?S = "entryInfoList (extensionFormat rule @ ''*.zip'') w"
  let ?k = "nat (int (length ?S) - maxBackupVersions rule)"
  have k: "?k \<le> length ?S" using pos by simp
  show ?thesis
  proof (cases "dirExists w")
    case True
    then show ?thesis using pos map_nth_upt_take[OF k, of "\<lambda>f. backupDirectory m @ ''/'' @ f"]
      by (simp add: removeOld_snd Let_def doomed_def removeLoop_attempts attemptedRemovals_append)
  next
    case False
    then have "?S = []" by (simp add: entryInfoList_def listDir_def dirExists_def)
    then show ?thesis using False pos by (simp add: removeOld_snd doomed_def)
  qed
qed

lemma removeOld_noop:
  "maxBackupVersions rule \<le> 0 \<Longrightarrow> fst (removeOldBackupVersions m rule w) = w"
  by (simp add: removeOld_fst)

lemma doomed_take:
  "doomed rule w = take (length (doomed rule w)) (entryInfoList (extensionFormat rule @ ''*.zip'') w)"
  by (simp add: doomed_def Let_def min_def)

lemma entryInfoList_distinct: "distinct (listDir w) \<Longrightarrow> distinct (entryInfoList p w)"
  by (simp add: entryInfoList_def)

lemma take_drop_less:
  fixes S :: "'a::linorder list"
  assumes "sorted S" "distinct S" "d \<in> set (take k S)" "x \<in> set (drop k S)"
  shows "d < x"
proof -
  have "sorted (take k S @ drop k S)" and "distinct (take k S @ drop k S)"
    using assms(1,2) by (simp_all only: append_take_drop_id)
  then have "\<forall>a\<in>set (take k S). \<forall>b\<in>set (drop k S). a \<le> b"
    and "set (take k S) \<inter> set (drop k S) = {}"
    unfolding sorted_append distinct_append by blast+
  with assms(3,4) have "d \<le> x" and "d \<noteq> x" by blast+
  then show ?thesis by simp
qed

lemma removeOld_kept:
  assumes pos: "0 < maxBackupVersions rule" and d: "distinct (listDir w)"
  shows "set (drop (length (doomed rule w)) (entryInfoList (extensionFormat rule @ ''*.zip'') w))
         \<subseteq> set (listDir (fst (removeOldBackupVersions m rule w)))"
proof
  let ?S = "entryInfoList (extensionFormat rule @ ''*.zip'') w"
  let ?k = "length (doomed rule w)"
  fix x assume x: "x \<in> set (drop ?k ?S)"
  have dS: "distinct ?S" using d by (rule entryInfoList_distinct)
  have sS: "sorted ?S" by (simp add: entryInfoList_def)
  have "x \<notin> set (take ?k ?S)" using take_drop_less[OF sS dS _ x] by blast
  then have "x \<notin> set (doomed rule w)" using doomed_take[of rule w] by simp
  moreover have "x \<in> set (listDir w)"
    using x in_set_dropD[of x ?k ?S] by (auto simp: entryInfoList_def)
  ultimately show "x \<in> set (listDir (fst (removeOldBackupVersions m rule w)))"
    using pos by (simp add: removeOld_world)
qed

lemma removeOld_all_removed:
  assumes pos: "0 < maxBackupVersions rule"
    and rm: "\<forall>f\<in>set (doomed rule w). mayRemove w f"
  shows "listDir (fst (removeOldBackupVersions m rule w))
         = filter (\<lambda>f. f \<notin> set (doomed rule w)) (listDir w)"
  using rm by (simp add: removeOld_world[OF pos])

lemma filter_mem_length:
  assumes "distinct es" "distinct D" "set D \<subseteq> set es"
  shows "length (filter (\<lambda>f. f \<notin> set D) es) = length es - length D"
proof -
  have "length (filter (\<lambda>f. f \<in> set D) es) = card (set (filter (\<lambda>f. f \<in> set D) es))"
    using assms(1) by (simp only: distinct_card distinct_filter)
  also have "set (filter (\<lambda>f. f \<in> set D) es) = set D" using assms(3) by auto
  also have "card (set D) = length D" using assms(2) by (rule distinct_card)
  finally have "length (filter (\<lambda>f. f \<in> set D) es) = length D" .
  then show ?thesis using sum_length_filter_compl[of "\<lambda>f. f \<in> set D" es] by simp
qed

lemma removeOld_listing:
  assumes pos: "0 < maxBackupVersions rule" and d: "distinct (listDir w)"
    and rm: "\<forall>f\<in>set (doomed rule w). mayRemove w f"
  shows "entryInfoList (extensionFormat rule @ ''*.zip'') (fst (removeOldBackupVersions m rule w))
         = drop (length (doomed rule w)) (entryInfoList (extensionFormat rule @ ''*.zip'') w)"
proof -
  let ?P = "wildcardMatch (extensionFormat rule @ ''*.zip'')"
  let ?k = "nat (int (length (sort (filter ?P (listDir w)))) - maxBackupVersions rule)"
  have dm: "doomed rule w = take ?k (sort (filter ?P (listDir w)))"
    by (simp add: doomed_def entryInfoList_def Let_def)
  have len: "length (doomed rule w) = ?k" using pos by (simp add: dm)
  have "sort (filter ?P (filter (\<lambda>f. f \<notin> set (doomed rule w)) (listDir w)))
        = sort (filter (\<lambda>g. g \<notin> set (take ?k (sort (filter ?P (listDir w))))) (filter ?P (listDir w)))"
    by (simp only: dm filter_filter conj_commute)
  also have "\<dots> = drop ?k (sort (filter ?P (listDir w)))"
    using d by (rule sort_filter_drop)
  finally show ?thesis
    by (simp only: entryInfoList_def removeOld_all_removed[OF pos rm] len)
qed

lemma removeOld_count:
  assumes pos: "0 < maxBackupVersions rule" and d: "distinct (listDir w)"
    and rm: "\<forall>f\<in>set (doomed rule w). mayRemove w f"
  shows "int (length (listDir w)) - int (length (listDir (fst (removeOldBackupVersions m rule w))))
         = max 0 (int (length (entryInfoList (extensionFormat rule @ ''*.zip'') w)) - maxBackupVersions rule)"
proof -
  have dD: "distinct (doomed rule w)"
    using entryInfoList_distinct[OF d] by (simp add: doomed_def Let_def)
  have sub: "set (doomed rule w) \<subseteq> set (listDir w)"
  proof
    fix x assume "x \<in> set (doomed rule w)"
    then have "x \<in> set (entryInfoList (extensionFormat rule @ ''*.zip'') w)"
      by (auto simp: doomed_def Let_def dest: in_set_takeD)
    then show "x \<in> set (listDir w)" by (simp add: entryInfoList_def)
  qed
  have "length (doomed rule w) \<le> length (listDir w)"
    using distinct_card[OF dD] distinct_card[OF d] card_mono[OF _ sub] by simp
  then show ?thesis
    using filter_mem_length[OF d dD sub] doomed_length[OF pos, of w]
    by (simp add: removeOld_all_removed[OF pos rm])
qed

section \<open>Lemmas on the reading of the settings\<close>

lemma parseRule_rule:
  "fst (fst (parseRule m obj w)) =
     \<lparr> name = replaceChar CHR '' '' CHR ''_'' (cfgName obj),
       intervalSeconds = cfgBackupInterval obj,
       extensionFormat = toLower (replaceChar CHR '' '' CHR ''_'' (cfgName obj)) @ ''-'',
       maxBackupVersions = cfgMaxBackupVersions obj,
       lastBackupSeconds = fst (getMostRecentBackupTimeInSecs m w
          (toLower (replaceChar CHR '' '' CHR ''_'' (cfgName obj)) @ ''-'')) \<rparr>"
  by (simp add: parseRule_def Let_def split: prod.splits)

lemma parseRules_Cons:
  "fst (parseRules m (obj # objs) w)
     = fst (parseRules (m\<lparr>backupRules := backupRules m @ [fst (fst (parseRule m obj w))]\<rparr>) objs
              (snd (fst (parseRule m obj w))))"
  by (simp split: prod.splits)


lemma parseRules_old:
  "i < length (backupRules m) \<Longrightarrow>
   backupRules (fst (fst (parseRules m objs w))) ! i = backupRules m ! i"
proof (induction objs arbitrary: m w)
  case Nil
  show ?case by simp
next
  case (Cons obj objs)
  have "backupRules (fst (fst (parseRules (m\<lparr>backupRules := backupRules m @ [fst (fst (parseRule m obj w))]\<rparr>) objs
              (snd (fst (parseRule m obj w)))))) ! i
        = backupRules (m\<lparr>backupRules := backupRules m @ [fst (fst (parseRule m obj w))]\<rparr>) ! i"
    by (rule Cons.IH) (use Cons.prems in simp)
  then show ?case using Cons.prems by (simp only: parseRules_Cons) (simp add: nth_append)
qed

lemma parseRules_name_format:
  "i < length objs \<Longrightarrow>
   name (backupRules (fst (fst (parseRules m objs w))) ! (length (backupRules m) + i))
     = replaceChar CHR '' '' CHR ''_'' (cfgName (objs ! i))
   \<and> extensionFormat (backupRules (fst (fst (parseRules m objs w))) ! (length (backupRules m) + i))
     = toLower (replaceChar CHR '' '' CHR ''_'' (cfgName (objs ! i))) @ ''-''"
proof (induction objs arbitrary: m w i)
  case Nil
  then show ?case by simp
next
  case (Cons obj objs)
  let ?m1 = "m\<lparr>backupRules := backupRules m @ [fst (fst (parseRule m obj w))]\<rparr>"
  let ?w1 = "snd (fst (parseRule m obj w))"
  show ?case
  proof (cases i)
    case 0
    have "backupRules (fst (fst (parseRules ?m1 objs ?w1))) ! (length (backupRules m))
          = backupRules ?m1 ! (length (backupRules m))"
      by (rule parseRules_old) simp
    then show ?thesis using 0 by (simp only: parseRules_Cons) (simp add: parseRule_rule)
  next
    case (Suc j)
    with Cons.prems have j: "j < length objs" by simp
    show ?thesis using Cons.IH[OF j, of ?m1 ?w1] Suc by (simp only: parseRules_Cons) simp
  qed
qed

lemma parseSettings_rules:
  "backupRules (fst (fst (parseSettings m (Some objs) w)))
     = backupRules (fst (fst (parseRules m objs w)))"
  by (simp add: parseSettings_def split: prod.splits)

lemma replaceChar_nth:
  "j < length s \<Longrightarrow> replaceChar a b s ! j = (if s ! j = a then b else s ! j)"
  by (simp add: replaceChar_def)

lemma replaceChar_changes:
  "a \<noteq> b \<Longrightarrow> a \<in> set s \<Longrightarrow> replaceChar a b s \<noteq> s"
  by (induction s) (auto simp: replaceChar_def)


section \<open>Lemmas on the backup cycle\<close>

lemma openForWrite_result:
  "fst (openForWrite f w) = (dirExists w \<and> mayCreate w f)"
  by (simp add: openForWrite_def dirExists_def split: option.splits)

lemma openForWrite_failed:
  "\<not> fst (openForWrite f w) \<Longrightarrow> snd (openForWrite f w) = w"
  by (simp add: openForWrite_def split: option.splits if_splits)

lemma openForWrite_listDir:
  "fst (openForWrite f w) \<Longrightarrow>
   listDir (snd (openForWrite f w)) = (if f \<in> set (listDir w) then listDir w else listDir w @ [f])"
  by (simp add: openForWrite_def listDir_def split: option.splits if_splits)

lemma backupRule_skip:
  "\<not> due nowSeconds rule \<Longrightarrow>
   fst (backupRule m nowSeconds rule w) = (rule, w)
   \<and> openedFiles (snd (backupRule m nowSeconds rule w)) = []
   \<and> handlerCalls (snd (backupRule m nowSeconds rule w)) = []
   \<and> attemptedRemovals (snd (backupRule m nowSeconds rule w)) = []"
  by (simp add: backupRule_def due_def Let_def)

lemma handlerCalls_append: "handlerCalls (xs @ ys) = handlerCalls xs @ handlerCalls ys"
  by (induction xs rule: handlerCalls.induct) simp_all

lemma openedFiles_append: "openedFiles (xs @ ys) = openedFiles xs @ openedFiles ys"
  by (induction xs rule: openedFiles.induct) simp_all

lemma handlerCalls_map: "handlerCalls (map (\<lambda>h. CreateBackup h p ok) hs) = map (\<lambda>h. CreateBackup h p ok) hs"
  by (induction hs) simp_all

lemma openedFiles_map: "openedFiles (map (\<lambda>h. CreateBackup h p ok) hs) = []"
  by (induction hs) simp_all

lemma attemptedRemovals_map: "attemptedRemovals (map (\<lambda>h. CreateBackup h p ok) hs) = []"
  by (induction hs) simp_all

lemma removeLoop_quiet:
  "handlerCalls (snd (removeLoop dir files idxs w)) = []
   \<and> openedFiles (snd (removeLoop dir files idxs w)) = []"
proof (induction idxs arbitrary: w)
  case Nil
  show ?case by simp
next
  case (Cons i idxs)
  show ?case by (simp only: removeLoop_snd) (simp add: Cons.IH)
qed

lemma removeOld_quiet:
  "handlerCalls (snd (removeOldBackupVersions m rule w)) = []
   \<and> openedFiles (snd (removeOldBackupVersions m rule w)) = []"
  by (simp add: removeOld_snd handlerCalls_append openedFiles_append removeLoop_quiet)

lemma backupRule_fire:
  assumes "due nowSeconds rule"
  shows "fst (backupRule m nowSeconds rule w)
         = (rule\<lparr>lastBackupSeconds := nowSeconds\<rparr>,
            fst (removeOldBackupVersions m (rule\<lparr>lastBackupSeconds := nowSeconds\<rparr>)
                  (snd (openForWrite (archiveName rule (clock w (clockReads w)))
                          (w\<lparr>clockReads := Suc (clockReads w)\<rparr>)))))"
    and "snd (backupRule m nowSeconds rule w)
         = [Log QCDebug [Str ''Checking ['', Str (name rule),
                       Str ''] - Time since last backup ['', Num (nowSeconds - lastBackupSeconds rule), Str ''] '',
                       Str ''compared to backup interval ['', Num (intervalSeconds rule), Str '']...''],
            Log QCDebug [Str ''Time since last backup ['', Num (nowSeconds - lastBackupSeconds rule),
                              Str ''] for rule ['', Str (name rule), Str ''] exceeds backup interval ['',
                              Num (intervalSeconds rule), Str ''] doing backup now...''],
            OpenFile (backupDirectory m @ ''/'' @ archiveName rule (clock w (clockReads w)))
               (fst (openForWrite (archiveName rule (clock w (clockReads w)))
                          (w\<lparr>clockReads := Suc (clockReads w)\<rparr>)))]
           @ (if \<not> fst (openForWrite (archiveName rule (clock w (clockReads w)))
                          (w\<lparr>clockReads := Suc (clockReads w)\<rparr>))
              then [Log QDebug [Str ''Could not open backup archive:'',
                                Str (backupDirectory m @ ''/'' @ archiveName rule (clock w (clockReads w)))],
                    Log QDebug [Str ''    ERROR:'']]
              else [])
           @ map (\<lambda>handler. CreateBackup handler
                    (backupDirectory m @ ''/'' @ archiveName rule (clock w (clockReads w)))
                    (fst (openForWrite (archiveName rule (clock w (clockReads w)))
                          (w\<lparr>clockReads := Suc (clockReads w)\<rparr>)))) (backupHandlers m)
           @ [CloseFile (backupDirectory m @ ''/'' @ archiveName rule (clock w (clockReads w))),
              Log QDebug [Str ''Created backup: '', Str (archiveName rule (clock w (clockReads w)))]]
           @ snd (removeOldBackupVersions m (rule\<lparr>lastBackupSeconds := nowSeconds\<rparr>)
                  (snd (openForWrite (archiveName rule (clock w (clockReads w)))
                          (w\<lparr>clockReads := Suc (clockReads w)\<rparr>))))"
  using assms
  by (simp_all add: backupRule_def due_def Let_def currentDateTime_def archiveName_def
               split: prod.splits)

lemma backupRule_opened:
  "openedFiles (snd (backupRule m nowSeconds rule w))
     = (if due nowSeconds rule
        then [(backupDirectory m @ ''/'' @ archiveName rule (clock w (clockReads w)),
               dirExists w \<and> mayCreate w (archiveName rule (clock w (clockReads w))))]
        else [])"
proof (cases "due nowSeconds rule")
  case True
  show ?thesis
    by (simp add: backupRule_fire(2)[OF True] True openedFiles_append openedFiles_map
                  removeOld_quiet openForWrite_result dirExists_def)
next
  case False
  then show ?thesis by (simp add: backupRule_skip)
qed

lemma backupRule_calls:
  "handlerCalls (snd (backupRule m nowSeconds rule w))
     = (if due nowSeconds rule
        then map (\<lambda>h. CreateBackup h (backupDirectory m @ ''/'' @ archiveName rule (clock w (clockReads w)))
                        (dirExists w \<and> mayCreate w (archiveName rule (clock w (clockReads w)))))
                 (backupHandlers m)
        else [])"
proof (cases "due nowSeconds rule")
  case True
  show ?thesis
    by (simp add: backupRule_fire(2)[OF True] True handlerCalls_append handlerCalls_map
                  removeOld_quiet openForWrite_result dirExists_def)
next
  case False
  then show ?thesis by (simp add: backupRule_skip)
qed

lemma backupRule_rule:
  "fst (fst (backupRule m nowSeconds rule w))
     = (if due nowSeconds rule then rule\<lparr>lastBackupSeconds := nowSeconds\<rparr> else rule)"
  by (cases "due nowSeconds rule") (simp_all add: backupRule_fire(1) backupRule_skip)

lemma backupLoop_Cons:
  "fst (fst (backupLoop m nowSeconds (rule # rules) w))
     = fst (fst (backupRule m nowSeconds rule w))
       # fst (fst (backupLoop m nowSeconds rules (snd (fst (backupRule m nowSeconds rule w)))))"
  "snd (backupLoop m nowSeconds (rule # rules) w)
     = snd (backupRule m nowSeconds rule w)
       @ snd (backupLoop m nowSeconds rules (snd (fst (backupRule m nowSeconds rule w))))"
  by (simp_all split: prod.splits)



lemma backup_unfold:
  "backupRules (fst (fst (backup m w)))
     = fst (fst (backupLoop m (toSecsSinceEpoch (clock w (clockReads w))) (backupRules m)
                   (w\<lparr>clockReads := Suc (clockReads w)\<rparr>)))"
  "snd (backup m w)
     = snd (backupLoop m (toSecsSinceEpoch (clock w (clockReads w))) (backupRules m)
                   (w\<lparr>clockReads := Suc (clockReads w)\<rparr>))"
  by (simp_all add: backup_def currentDateTime_def Let_def split: prod.splits)

section \<open>Lemmas on the name filter\<close>

lemma endsWithZip_Cons: "endsWithZip cs \<Longrightarrow> endsWithZip (c # cs)"
proof -
  assume a: "endsWithZip cs"
  then have "length (map toLowerChar (drop (length cs - 4) cs)) = length ''.zip''"
    unfolding endsWithZip_def by (rule arg_cong)
  then have "4 \<le> length cs" by simp
  then have "Suc (length cs) - 4 = Suc (length cs - 4)" by simp
  then show ?thesis using a by (simp add: endsWithZip_def)
qed

lemma setStep_inside: "setStep neg rs pending dash c \<noteq> Outside"
  by (cases "(neg, rs, pending, dash, c)" rule: setStep.cases) simp_all

lemma open_set_stays_open:
  "mode \<noteq> Outside \<Longrightarrow> CHR '']'' \<notin> set q \<Longrightarrow> snd (foldl wildcardStep (ts, mode) q) \<noteq> Outside"
proof (induction q arbitrary: ts mode)
  case Nil
  then show ?case by simp
next
  case (Cons c q)
  obtain ts1 mode1 where s: "wildcardStep (ts, mode) c = (ts1, mode1)" by (cases "wildcardStep (ts, mode) c")
  have "mode1 \<noteq> Outside"
    using s Cons.prems setStep_inside
    by (cases mode) (auto split: if_splits)
  then show ?case using Cons.IH[of mode1 ts1] Cons.prems by (simp add: s)
qed

lemma zip_tokens:
  assumes "wildcardTokens (p @ ''*.zip'') = Some ts"
  shows "\<exists>tp. ts = tp @ [AnyRun, Literal CHR ''.'', Literal CHR ''z'', Literal CHR ''i'',
                           Literal CHR ''p'']"
proof -
  obtain tp mode where p: "foldl wildcardStep ([], Outside) p = (tp, mode)"
    by (cases "foldl wildcardStep ([], Outside) p")
  show ?thesis
  proof (cases "mode = Outside")
    case True
    then have "foldl wildcardStep ([], Outside) (p @ ''*.zip'')
               = (tp @ [AnyRun, Literal CHR ''.'', Literal CHR ''z'', Literal CHR ''i'',
                        Literal CHR ''p''], Outside)"
      by (simp add: p)
    with assms have "ts = tp @ [AnyRun, Literal CHR ''.'', Literal CHR ''z'', Literal CHR ''i'',
                                Literal CHR ''p'']"
      by (simp add: wildcardTokens_def)
    then show ?thesis by blast
  next
    case False
    then have stays: "snd (foldl wildcardStep (tp, mode) ''*.zip'') \<noteq> Outside"
      by (rule open_set_stays_open) simp
    obtain ts' mode' where r: "foldl wildcardStep (tp, mode) ''*.zip'' = (ts', mode')"
      by (cases "foldl wildcardStep (tp, mode) ''*.zip''")
    with stays have "mode' \<noteq> Outside" by simp
    moreover have "foldl wildcardStep ([], Outside) (p @ ''*.zip'') = (ts', mode')"
      unfolding foldl_append p by (rule r)
    ultimately have "wildcardTokens (p @ ''*.zip'') = None"
      by (cases mode') (simp_all add: wildcardTokens_def)
    with assms show ?thesis by simp
  qed
qed

lemma literal_match:
  "matchWildcards (map Literal q) s \<Longrightarrow> map toLowerChar s = map toLowerChar q"
proof (induction q arbitrary: s)
  case Nil
  then show ?case by simp
next
  case (Cons x q)
  then show ?case by (cases s) auto
qed

lemma zip_literal:
  "matchWildcards [Literal CHR ''.'', Literal CHR ''z'', Literal CHR ''i'', Literal CHR ''p''] s
   \<Longrightarrow> endsWithZip s"
proof -
  assume "matchWildcards [Literal CHR ''.'', Literal CHR ''z'', Literal CHR ''i'', Literal CHR ''p''] s"
  then have "matchWildcards (map Literal ''.zip'') s" by simp
  then have m: "map toLowerChar s = map toLowerChar ''.zip''" by (rule literal_match)
  then have "length (map toLowerChar s) = length (map toLowerChar ''.zip'')" by (rule arg_cong)
  then have "length s = 4" by simp
  moreover have "map toLowerChar ''.zip'' = ''.zip''" by code_simp
  ultimately show ?thesis using m by (simp add: endsWithZip_def)
qed

lemma matchWildcards_zip_aux:
  "matchWildcards pat s \<Longrightarrow>
   \<forall>tp. pat = tp @ [AnyRun, Literal CHR ''.'', Literal CHR ''z'', Literal CHR ''i'', Literal CHR ''p'']
        \<longrightarrow> endsWithZip s"
proof (induction pat s rule: matchWildcards.induct)
  case (1 s)
  show ?case by simp
next
  case (2 x ps)
  show ?case
  proof (intro allI impI)
    fix tp
    assume e: "x # ps = tp @ [AnyRun, Literal CHR ''.'', Literal CHR ''z'', Literal CHR ''i'',
                              Literal CHR ''p'']"
    from "2.prems" have star: "x = AnyRun" and rest: "matchWildcards ps []" by simp_all
    show "endsWithZip []"
    proof (cases tp)
      case Nil
      with e have "ps = [Literal CHR ''.'', Literal CHR ''z'', Literal CHR ''i'', Literal CHR ''p'']"
        by simp
      with rest show ?thesis by simp
    next
      case (Cons y tp')
      with e have "ps = tp' @ [AnyRun, Literal CHR ''.'', Literal CHR ''z'', Literal CHR ''i'',
                               Literal CHR ''p'']"
        by simp
      with "2.IH" rest show ?thesis by blast
    qed
  qed
next
  case (3 x ps c cs)
  show ?case
  proof (intro allI impI)
    fix tp
    assume e: "x # ps = tp @ [AnyRun, Literal CHR ''.'', Literal CHR ''z'', Literal CHR ''i'',
                              Literal CHR ''p'']"
    show "endsWithZip (c # cs)"
    proof (cases "x = AnyRun")
      case star: True
      from "3.prems" star have alt: "matchWildcards ps (c # cs) \<or> matchWildcards (x # ps) cs"
        by simp
      then show ?thesis
      proof
        assume r: "matchWildcards ps (c # cs)"
        show ?thesis
        proof (cases tp)
          case Nil
          with e have "ps = [Literal CHR ''.'', Literal CHR ''z'', Literal CHR ''i'', Literal CHR ''p'']"
            by simp
          with r show ?thesis by (simp only: zip_literal)
        next
          case (Cons y tp')
          with e have "ps = tp' @ [AnyRun, Literal CHR ''.'', Literal CHR ''z'', Literal CHR ''i'',
                                   Literal CHR ''p'']"
            by simp
          with "3.IH"(1)[OF star r] show ?thesis by blast
        qed
      next
        assume r: "matchWildcards (x # ps) cs"
        from "3.IH"(2)[OF star r] e have "endsWithZip cs" by blast
        then show ?thesis by (rule endsWithZip_Cons)
      qed
    next
      case nostar: False
      from "3.prems" nostar have r: "matchWildcards ps cs" by simp
      from nostar e obtain tp' where "tp = x # tp'" by (cases tp) auto
      with e have "ps = tp' @ [AnyRun, Literal CHR ''.'', Literal CHR ''z'', Literal CHR ''i'',
                               Literal CHR ''p'']"
        by simp
      with "3.IH"(3)[OF nostar r] have "endsWithZip cs" by blast
      then show ?thesis by (rule endsWithZip_Cons)
    qed
  qed
qed

lemma wildcardMatch_zip: "wildcardMatch (p @ ''*.zip'') s \<Longrightarrow> endsWithZip s"
proof -
  assume m: "wildcardMatch (p @ ''*.zip'') s"
  then obtain ts where t: "wildcardTokens (p @ ''*.zip'') = Some ts" and w: "matchWildcards ts s"
    by (auto simp: wildcardMatch_def split: option.splits)
  from zip_tokens[OF t] w show ?thesis using matchWildcards_zip_aux by blast
qed

lemma lock_not_zip: "\<not> wildcardMatch (p @ ''*.zip'') ''running.lock''"
proof
  assume "wildcardMatch (p @ ''*.zip'') ''running.lock''"
  then have "endsWithZip ''running.lock''" by (rule wildcardMatch_zip)
  moreover have "\<not> endsWithZip ''running.lock''" by code_simp
  ultimately show False by simp
qed

section \<open>Lemmas on persist\<close>

lemma persist_failed:
  "\<not> fst (openForWrite ''running.lock'' (mkpath w)) \<Longrightarrow>
   persist m w = ((m, mkpath w), [OpenFile (backupDirectory m @ ''/running.lock'') False])"
  using openForWrite_failed[of "''running.lock''" "mkpath w"]
  by (cases "openForWrite ''running.lock'' (mkpath w)") (simp add: persist_def Let_def)

lemma persist_opened:
  "fst (openForWrite ''running.lock'' (mkpath w)) \<Longrightarrow>
   persist m w =
     ((fst (fst (backup m (snd (openForWrite ''running.lock'' (mkpath w))))),
       snd (removeFile ''running.lock''
              (snd (fst (backup m (snd (openForWrite ''running.lock'' (mkpath w)))))))),
      [OpenFile (backupDirectory m @ ''/running.lock'') True]
      @ snd (backup m (snd (openForWrite ''running.lock'' (mkpath w))))
      @ [CloseFile (backupDirectory m @ ''/running.lock''),
         RemoveFile (backupDirectory m @ ''/running.lock'')
           (fst (removeFile ''running.lock''
              (snd (fst (backup m (snd (openForWrite ''running.lock'' (mkpath w))))))))])"
  by (cases "openForWrite ''running.lock'' (mkpath w)")
     (simp add: persist_def Let_def split: prod.splits)

section \<open>Lemmas on the marker file\<close>

lemma doomed_match:
  "f \<in> set (doomed rule w) \<Longrightarrow> wildcardMatch (extensionFormat rule @ ''*.zip'') f"
  by (auto simp: doomed_def Let_def entryInfoList_def dest: in_set_takeD)

lemma lock_not_doomed: "''running.lock'' \<notin> set (doomed rule w)"
  using doomed_match lock_not_zip by blast

lemma drop_suffix:
  assumes "n \<le> length ys"
  shows "drop (length (xs @ ys) - n) (xs @ ys) = drop (length ys - n) ys"
proof -
  have "length (xs @ ys) - n = length xs + (length ys - n)" using assms by simp
  then show ?thesis by (simp only: drop_append drop_all) simp
qed

lemma removeOld_not_lock:
  "dir @ ''/running.lock'' \<notin> set (attemptedRemovals (snd (removeOldBackupVersions m rule w)))"
proof (cases "backupDirectory m = dir")
  case True
  show ?thesis
  proof
    assume "dir @ ''/running.lock'' \<in> set (attemptedRemovals (snd (removeOldBackupVersions m rule w)))"
    then obtain f where "f \<in> set (doomed rule w)" and "dir @ ''/running.lock'' = dir @ ''/'' @ f"
      using True by (auto simp: removeOld_attempts split: if_splits)
    then have "''running.lock'' \<in> set (doomed rule w)" by simp
    then show False using lock_not_doomed by blast
  qed
next
  case False
  show ?thesis
  proof
    assume "dir @ ''/running.lock'' \<in> set (attemptedRemovals (snd (removeOldBackupVersions m rule w)))"
    then obtain f where f: "f \<in> set (doomed rule w)"
      and e: "dir @ ''/running.lock'' = backupDirectory m @ ''/'' @ f"
      by (auto simp: removeOld_attempts split: if_splits)
    from f have "endsWithZip f" using doomed_match wildcardMatch_zip by blast
    then have lf: "4 \<le> length f" and z: "map toLowerChar (drop (length f - 4) f) = ''.zip''"
      unfolding endsWithZip_def using length_map[of toLowerChar "drop (length f - 4) f"] by auto
    have "drop (length (dir @ ''/running.lock'') - 4) (dir @ ''/running.lock'') = ''lock''"
      by simp
    moreover have "drop (length ((backupDirectory m @ ''/'') @ f) - 4) ((backupDirectory m @ ''/'') @ f)
                   = drop (length f - 4) f"
      using lf by (rule drop_suffix)
    ultimately have "drop (length f - 4) f = ''lock''" using e by simp
    with z have "map toLowerChar ''lock'' = ''.zip''" by simp
    moreover have "map toLowerChar ''lock'' \<noteq> ''.zip''" by code_simp
    ultimately show False by simp
  qed
qed

lemma backupRule_removals:
  "attemptedRemovals (snd (backupRule m nowSeconds rule w))
     = (if due nowSeconds rule
        then attemptedRemovals (snd (removeOldBackupVersions m (rule\<lparr>lastBackupSeconds := nowSeconds\<rparr>)
               (snd (openForWrite (archiveName rule (clock w (clockReads w)))
                       (w\<lparr>clockReads := Suc (clockReads w)\<rparr>)))))
        else [])"
proof (cases "due nowSeconds rule")
  case True
  show ?thesis
    by (simp add: backupRule_fire(2)[OF True] True attemptedRemovals_append attemptedRemovals_map)
next
  case False
  then show ?thesis by (simp add: backupRule_skip)
qed

lemma backupLoop_not_lock:
  "dir @ ''/running.lock'' \<notin> set (attemptedRemovals (snd (backupLoop m nowSeconds rules w)))"
proof (induction rules arbitrary: w)
  case Nil
  show ?case by simp
next
  case (Cons rule rules)
  show ?case
    by (simp only: backupLoop_Cons attemptedRemovals_append set_append Un_iff backupRule_removals)
       (simp add: Cons.IH removeOld_not_lock)
qed

lemma openForWrite_keeps: "f \<in> set (listDir w) \<Longrightarrow> f \<in> set (listDir (snd (openForWrite g w)))"
  by (cases "dirEntries w") (simp_all add: openForWrite_def listDir_def)

lemma removeOld_keeps_lock:
  "''running.lock'' \<in> set (listDir w) \<Longrightarrow>
   ''running.lock'' \<in> set (listDir (fst (removeOldBackupVersions m rule w)))"
proof (cases "0 < maxBackupVersions rule")
  case True
  assume "''running.lock'' \<in> set (listDir w)"
  then show ?thesis using lock_not_doomed by (simp add: removeOld_world[OF True])
next
  case False
  assume "''running.lock'' \<in> set (listDir w)"
  then show ?thesis using False by (simp add: removeOld_fst)
qed

lemma listDir_clockReads: "listDir (w\<lparr>clockReads := n\<rparr>) = listDir w"
  by (simp add: listDir_def)

lemma backupRule_keeps_lock:
  "''running.lock'' \<in> set (listDir w) \<Longrightarrow>
   ''running.lock'' \<in> set (listDir (snd (fst (backupRule m nowSeconds rule w))))"
proof (cases "due nowSeconds rule")
  case True
  assume "''running.lock'' \<in> set (listDir w)"
  then show ?thesis
    by (simp add: backupRule_fire(1)[OF True] removeOld_keeps_lock openForWrite_keeps
                  listDir_clockReads)
next
  case False
  assume "''running.lock'' \<in> set (listDir w)"
  then show ?thesis using False by (simp add: backupRule_skip)
qed

lemma backupLoop_world:
  "snd (fst (backupLoop m nowSeconds (rule # rules) w))
     = snd (fst (backupLoop m nowSeconds rules (snd (fst (backupRule m nowSeconds rule w)))))"
  "snd (fst (backupLoop m nowSeconds [] w)) = w"
  by (simp_all split: prod.splits)

lemma backupLoop_keeps_lock:
  "''running.lock'' \<in> set (listDir w) \<Longrightarrow>
   ''running.lock'' \<in> set (listDir (snd (fst (backupLoop m nowSeconds rules w))))"
proof (induction rules arbitrary: w)
  case Nil
  then show ?case by simp
next
  case (Cons rule rules)
  show ?case unfolding backupLoop_world
    by (rule Cons.IH) (rule backupRule_keeps_lock[OF Cons.prems])
qed

lemma backup_world:
  "snd (fst (backup m w))
     = snd (fst (backupLoop m (toSecsSinceEpoch (clock w (clockReads w))) (backupRules m)
                   (w\<lparr>clockReads := Suc (clockReads w)\<rparr>)))"
  by (simp add: backup_def currentDateTime_def Let_def split: prod.splits)

lemma backup_keeps_lock:
  "''running.lock'' \<in> set (listDir w) \<Longrightarrow>
   ''running.lock'' \<in> set (listDir (snd (fst (backup m w))))"
  unfolding backup_world by (rule backupLoop_keeps_lock) (simp add: listDir_clockReads)

lemma backup_not_lock:
  "dir @ ''/running.lock'' \<notin> set (attemptedRemovals (snd (backup m w)))"
  by (simp only: backup_unfold backupLoop_not_lock not_False_eq_True)

lemma openForWrite_mayRemove: "mayRemove (snd (openForWrite f w)) = mayRemove w"
  by (simp add: openForWrite_def split: option.splits)

lemma removeOld_mayRemove: "mayRemove (fst (removeOldBackupVersions m rule w)) = mayRemove w"
proof (cases "dirEntries w")
  case None
  then show ?thesis by (simp add: removeOld_fst removeLoop_None)
next
  case (Some es)
  then show ?thesis by (simp add: removeOld_fst removeLoop_world)
qed

lemma backupRule_mayRemove: "mayRemove (snd (fst (backupRule m nowSeconds rule w))) = mayRemove w"
  by (cases "due nowSeconds rule")
     (simp_all add: backupRule_fire(1) backupRule_skip removeOld_mayRemove openForWrite_mayRemove)

lemma backupLoop_mayRemove: "mayRemove (snd (fst (backupLoop m nowSeconds rules w))) = mayRemove w"
proof (induction rules arbitrary: w)
  case Nil
  show ?case by simp
next
  case (Cons rule rules)
  show ?case unfolding backupLoop_world by (simp only: Cons.IH backupRule_mayRemove)
qed

lemma backup_mayRemove: "mayRemove (snd (fst (backup m w))) = mayRemove w"
  unfolding backup_world by (simp add: backupLoop_mayRemove)

lemma mkpath_mayRemove: "mayRemove (mkpath w) = mayRemove w"
  by (simp add: mkpath_def split: option.splits)

lemma removeFile_gone:
  "mayRemove w f \<Longrightarrow> f \<notin> set (listDir (snd (removeFile f w)))"
  by (auto simp: removeFile_def listDir_def split: option.splits)

lemma openForWrite_present:
  "fst (openForWrite f w) \<Longrightarrow> f \<in> set (listDir (snd (openForWrite f w)))"
  by (simp add: openForWrite_listDir)

section \<open>Lemmas on the names of the archives\<close>

lemma fixedDigits_length: "length (fixedDigits w n) = w"
  by (induction w arbitrary: n) simp_all

lemma paddedNumber_length: "w \<le> length (paddedNumber w n)"
  by (simp add: paddedNumber_def fixedDigits_length)

lemma toString_length: "19 \<le> length (toString t)"
  using paddedNumber_length[of 4 "nat \<bar>year t\<bar>"] paddedNumber_length[of 2 "nat (month t)"]
    paddedNumber_length[of 2 "nat (day t)"] paddedNumber_length[of 2 "nat (hour t)"]
    paddedNumber_length[of 2 "nat (minute t)"] paddedNumber_length[of 2 "nat (second t)"]
  by (simp add: toString_def)

lemma written_archive_never_matches:
  "\<not> exactMatch (formatRE (extensionFormat rule)) (archiveName rule t)"
proof
  assume "exactMatch (formatRE (extensionFormat rule)) (archiveName rule t)"
  then have "length (formatRE (extensionFormat rule)) = length (archiveName rule t)"
    unfolding exactMatch_def by (rule list_all2_lengthD)
  then show False using toString_length[of t]
    by (simp add: formatRE_def archiveName_def DATETIME_FORMAT_RE_def)
qed

lemma retention_noop_when_nothing_matches:
  "entryInfoList (extensionFormat rule @ ''*.zip'') w = [] \<Longrightarrow>
   fst (removeOldBackupVersions m rule w) = w"
  by (simp add: removeOld_fst)

lemma backupLoop_single:
  "fst (backupLoop m nowSeconds [rule] w)
     = ([fst (fst (backupRule m nowSeconds rule w))], snd (fst (backupRule m nowSeconds rule w)))"
  by (simp split: prod.splits)

lemma backup_fst:
  "fst (backup m w)
     = (m\<lparr>backupRules := fst (fst (backupLoop m (toSecsSinceEpoch (clock w (clockReads w)))
                                     (backupRules m) (w\<lparr>clockReads := Suc (clockReads w)\<rparr>)))\<rparr>,
        snd (fst (backupLoop m (toSecsSinceEpoch (clock w (clockReads w)))
                    (backupRules m) (w\<lparr>clockReads := Suc (clockReads w)\<rparr>))))"
  by (simp add: backup_def currentDateTime_def Let_def split: prod.splits)

lemma exampleWorld_cycle:
  assumes n: "n1 = Suc n" "n2 = Suc n1"
    and d: "due (toSecsSinceEpoch (exampleClock n)) rule"
    and f: "archiveName rule (exampleClock n1) \<notin> set es"
    and e: "entryInfoList (extensionFormat rule @ ''*.zip'')
              ((exampleWorld (es @ [archiveName rule (exampleClock n1)]))\<lparr>clockReads := n2\<rparr>) = []"
  shows "fst (backup (exampleManager\<lparr>backupRules := [rule]\<rparr>) ((exampleWorld es)\<lparr>clockReads := n\<rparr>))
         = (exampleManager\<lparr>backupRules := [rule\<lparr>lastBackupSeconds := toSecsSinceEpoch (exampleClock n)\<rparr>]\<rparr>,
            (exampleWorld (es @ [archiveName rule (exampleClock n1)]))\<lparr>clockReads := n2\<rparr>)"
proof -
  let ?w1 = "(exampleWorld es)\<lparr>clockReads := n1\<rparr>"
  let ?now = "toSecsSinceEpoch (exampleClock n)"
  let ?f = "archiveName rule (exampleClock n1)"
  let ?w2 = "(exampleWorld (es @ [?f]))\<lparr>clockReads := n2\<rparr>"
  have o: "snd (openForWrite ?f (?w1\<lparr>clockReads := Suc (clockReads ?w1)\<rparr>)) = ?w2"
    using f n by (simp add: openForWrite_def exampleWorld_def allow_def)
  have c: "clock ?w1 (clockReads ?w1) = exampleClock n1"
    by (simp add: exampleWorld_def)
  have "fst (backupRule (exampleManager\<lparr>backupRules := [rule]\<rparr>) ?now rule ?w1)
        = (rule\<lparr>lastBackupSeconds := ?now\<rparr>, ?w2)"
    unfolding backupRule_fire(1)[OF d] c o
    using e by (simp add: retention_noop_when_nothing_matches)
  then have "fst (backupLoop (exampleManager\<lparr>backupRules := [rule]\<rparr>) ?now [rule] ?w1)
        = ([rule\<lparr>lastBackupSeconds := ?now\<rparr>], ?w2)"
    by (simp only: backupLoop_single fst_conv snd_conv)
  moreover have "clock ((exampleWorld es)\<lparr>clockReads := n\<rparr>) (clockReads ((exampleWorld es)\<lparr>clockReads := n\<rparr>))
                 = exampleClock n"
    by (simp add: exampleWorld_def)
  ultimately show ?thesis using n
    by (simp add: backup_fst)
qed

lemma archiveName_lastBackupSeconds:
  "archiveName (rule\<lparr>lastBackupSeconds := x\<rparr>) t = archiveName rule t"
  by (simp add: archiveName_def)

lemma exampleClock_seconds:
  "toSecsSinceEpoch (exampleClock 0) = 1704067200"
  "toSecsSinceEpoch (exampleClock 2) = 1704240000"
  "toSecsSinceEpoch (exampleClock 4) = 1704412800"
  "toSecsSinceEpoch (exampleClock 6) = 1704585600"
  by code_simp+

lemma dailyRule_archives:
  "archiveName dailyRule (exampleClock 1) = ''backup-daily-2024-01-01_00-00-01.zip''"
  "archiveName dailyRule (exampleClock 3) = ''backup-daily-2024-01-03_00-00-01.zip''"
  "archiveName dailyRule (exampleClock 5) = ''backup-daily-2024-01-05_00-00-01.zip''"
  "archiveName dailyRule (exampleClock 7) = ''backup-daily-2024-01-07_00-00-01.zip''"
  by code_simp+

lemma dailyRule_listing:
  "entryInfoList ''daily-*.zip'' ((exampleWorld [''backup-daily-2024-01-01_00-00-01.zip''])\<lparr>clockReads := 2\<rparr>) = []"
  "entryInfoList ''daily-*.zip'' ((exampleWorld [''backup-daily-2024-01-01_00-00-01.zip'', ''backup-daily-2024-01-03_00-00-01.zip''])\<lparr>clockReads := 4\<rparr>) = []"
  "entryInfoList ''daily-*.zip'' ((exampleWorld [''backup-daily-2024-01-01_00-00-01.zip'', ''backup-daily-2024-01-03_00-00-01.zip'', ''backup-daily-2024-01-05_00-00-01.zip''])\<lparr>clockReads := 6\<rparr>) = []"
  "entryInfoList ''daily-*.zip'' ((exampleWorld [''backup-daily-2024-01-01_00-00-01.zip'', ''backup-daily-2024-01-03_00-00-01.zip'', ''backup-daily-2024-01-05_00-00-01.zip'', ''backup-daily-2024-01-07_00-00-01.zip''])\<lparr>clockReads := 8\<rparr>) = []"
  by code_simp+

lemma dailyRule_fields:
  "extensionFormat dailyRule = ''daily-''" "intervalSeconds dailyRule = 86400"
  "lastBackupSeconds dailyRule = 0"
  by (simp_all add: dailyRule_def)

lemma exampleCycle1:
  "fst (backup (exampleManager\<lparr>backupRules := [dailyRule]\<rparr>)
          ((exampleWorld [])\<lparr>clockReads := 0\<rparr>))
   = (exampleManager\<lparr>backupRules := [dailyRule\<lparr>lastBackupSeconds := 1704067200\<rparr>]\<rparr>,
      (exampleWorld [''backup-daily-2024-01-01_00-00-01.zip''])\<lparr>clockReads := 2\<rparr>)"
proof -
  have a: "archiveName (dailyRule) (exampleClock 1) = ''backup-daily-2024-01-01_00-00-01.zip''"
    by (simp only: archiveName_lastBackupSeconds dailyRule_archives)
  have d: "due (toSecsSinceEpoch (exampleClock 0)) (dailyRule)"
    by (simp add: due_def exampleClock_seconds dailyRule_fields)
  have f: "archiveName (dailyRule) (exampleClock 1) \<notin> set []"
    unfolding a by simp
  have x: "extensionFormat (dailyRule) = ''daily-''" by (simp add: dailyRule_fields)
  have e: "entryInfoList (extensionFormat (dailyRule) @ ''*.zip'')
             ((exampleWorld ([] @ [archiveName (dailyRule) (exampleClock 1)]))\<lparr>clockReads := 2\<rparr>) = []"
    unfolding a x append.simps by (rule dailyRule_listing)
  have n: "(1::nat) = Suc 0" "(2::nat) = Suc 1" by simp_all
  show ?thesis
    using exampleWorld_cycle[OF n d f e] unfolding a exampleClock_seconds append.simps by simp
qed

lemma exampleCycle2:
  "fst (backup (exampleManager\<lparr>backupRules := [dailyRule\<lparr>lastBackupSeconds := 1704067200\<rparr>]\<rparr>)
          ((exampleWorld [''backup-daily-2024-01-01_00-00-01.zip''])\<lparr>clockReads := 2\<rparr>))
   = (exampleManager\<lparr>backupRules := [dailyRule\<lparr>lastBackupSeconds := 1704240000\<rparr>]\<rparr>,
      (exampleWorld [''backup-daily-2024-01-01_00-00-01.zip'', ''backup-daily-2024-01-03_00-00-01.zip''])\<lparr>clockReads := 4\<rparr>)"
proof -
  have a: "archiveName (dailyRule\<lparr>lastBackupSeconds := 1704067200\<rparr>) (exampleClock 3) = ''backup-daily-2024-01-03_00-00-01.zip''"
    by (simp only: archiveName_lastBackupSeconds dailyRule_archives)
  have d: "due (toSecsSinceEpoch (exampleClock 2)) (dailyRule\<lparr>lastBackupSeconds := 1704067200\<rparr>)"
    by (simp add: due_def exampleClock_seconds dailyRule_fields)
  have f: "archiveName (dailyRule\<lparr>lastBackupSeconds := 1704067200\<rparr>) (exampleClock 3) \<notin> set [''backup-daily-2024-01-01_00-00-01.zip'']"
    unfolding a by simp
  have x: "extensionFormat (dailyRule\<lparr>lastBackupSeconds := 1704067200\<rparr>) = ''daily-''" by (simp add: dailyRule_fields)
  have e: "entryInfoList (extensionFormat (dailyRule\<lparr>lastBackupSeconds := 1704067200\<rparr>) @ ''*.zip'')
             ((exampleWorld ([''backup-daily-2024-01-01_00-00-01.zip''] @ [archiveName (dailyRule\<lparr>lastBackupSeconds := 1704067200\<rparr>) (exampleClock 3)]))\<lparr>clockReads := 4\<rparr>) = []"
    unfolding a x append.simps by (rule dailyRule_listing)
  have n: "(3::nat) = Suc 2" "(4::nat) = Suc 3" by simp_all
  show ?thesis
    using exampleWorld_cycle[OF n d f e] unfolding a exampleClock_seconds append.simps by simp
qed

lemma exampleCycle3:
  "fst (backup (exampleManager\<lparr>backupRules := [dailyRule\<lparr>lastBackupSeconds := 1704240000\<rparr>]\<rparr>)
          ((exampleWorld [''backup-daily-2024-01-01_00-00-01.zip'', ''backup-daily-2024-01-03_00-00-01.zip''])\<lparr>clockReads := 4\<rparr>))
   = (exampleManager\<lparr>backupRules := [dailyRule\<lparr>lastBackupSeconds := 1704412800\<rparr>]\<rparr>,
      (exampleWorld [''backup-daily-2024-01-01_00-00-01.zip'', ''backup-daily-2024-01-03_00-00-01.zip'', ''backup-daily-2024-01-05_00-00-01.zip''])\<lparr>clockReads := 6\<rparr>)"
proof -
  have a: "archiveName (dailyRule\<lparr>lastBackupSeconds := 1704240000\<rparr>) (exampleClock 5) = ''backup-daily-2024-01-05_00-00-01.zip''"
    by (simp only: archiveName_lastBackupSeconds dailyRule_archives)
  have d: "due (toSecsSinceEpoch (exampleClock 4)) (dailyRule\<lparr>lastBackupSeconds := 1704240000\<rparr>)"
    by (simp add: due_def exampleClock_seconds dailyRule_fields)
  have f: "archiveName (dailyRule\<lparr>lastBackupSeconds := 1704240000\<rparr>) (exampleClock 5) \<notin> set [''backup-daily-2024-01-01_00-00-01.zip'', ''backup-daily-2024-01-03_00-00-01.zip'']"
    unfolding a by simp
  have x: "extensionFormat (dailyRule\<lparr>lastBackupSeconds := 1704240000\<rparr>) = ''daily-''" by (simp add: dailyRule_fields)
  have e: "entryInfoList (extensionFormat (dailyRule\<lparr>lastBackupSeconds := 1704240000\<rparr>) @ ''*.zip'')
             ((exampleWorld ([''backup-daily-2024-01-01_00-00-01.zip'', ''backup-daily-2024-01-03_00-00-01.zip''] @ [archiveName (dailyRule\<lparr>lastBackupSeconds := 1704240000\<rparr>) (exampleClock 5)]))\<lparr>clockReads := 6\<rparr>) = []"
    unfolding a x append.simps by (rule dailyRule_listing)
  have n: "(5::nat) = Suc 4" "(6::nat) = Suc 5" by simp_all
  show ?thesis
    using exampleWorld_cycle[OF n d f e] unfolding a exampleClock_seconds append.simps by simp
qed

lemma exampleCycle4:
  "fst (backup (exampleManager\<lparr>backupRules := [dailyRule\<lparr>lastBackupSeconds := 1704412800\<rparr>]\<rparr>)
          ((exampleWorld [''backup-daily-2024-01-01_00-00-01.zip'', ''backup-daily-2024-01-03_00-00-01.zip'', ''backup-daily-2024-01-05_00-00-01.zip''])\<lparr>clockReads := 6\<rparr>))
   = (exampleManager\<lparr>backupRules := [dailyRule\<lparr>lastBackupSeconds := 1704585600\<rparr>]\<rparr>,
      (exampleWorld [''backup-daily-2024-01-01_00-00-01.zip'', ''backup-daily-2024-01-03_00-00-01.zip'', ''backup-daily-2024-01-05_00-00-01.zip'', ''backup-daily-2024-01-07_00-00-01.zip''])\<lparr>clockReads := 8\<rparr>)"
proof -
  have a: "archiveName (dailyRule\<lparr>lastBackupSeconds := 1704412800\<rparr>) (exampleClock 7) = ''backup-daily-2024-01-07_00-00-01.zip''"
    by (simp only: archiveName_lastBackupSeconds dailyRule_archives)
  have d: "due (toSecsSinceEpoch (exampleClock 6)) (dailyRule\<lparr>lastBackupSeconds := 1704412800\<rparr>)"
    by (simp add: due_def exampleClock_seconds dailyRule_fields)
  have f: "archiveName (dailyRule\<lparr>lastBackupSeconds := 1704412800\<rparr>) (exampleClock 7) \<notin> set [''backup-daily-2024-01-01_00-00-01.zip'', ''backup-daily-2024-01-03_00-00-01.zip'', ''backup-daily-2024-01-05_00-00-01.zip'']"
    unfolding a by simp
  have x: "extensionFormat (dailyRule\<lparr>lastBackupSeconds := 1704412800\<rparr>) = ''daily-''" by (simp add: dailyRule_fields)
  have e: "entryInfoList (extensionFormat (dailyRule\<lparr>lastBackupSeconds := 1704412800\<rparr>) @ ''*.zip'')
             ((exampleWorld ([''backup-daily-2024-01-01_00-00-01.zip'', ''backup-daily-2024-01-03_00-00-01.zip'', ''backup-daily-2024-01-05_00-00-01.zip''] @ [archiveName (dailyRule\<lparr>lastBackupSeconds := 1704412800\<rparr>) (exampleClock 7)]))\<lparr>clockReads := 8\<rparr>) = []"
    unfolding a x append.simps by (rule dailyRule_listing)
  have n: "(7::nat) = Suc 6" "(8::nat) = Suc 7" by simp_all
  show ?thesis
    using exampleWorld_cycle[OF n d f e] unfolding a exampleClock_seconds append.simps by simp
qed

lemma fireCycles_numeral:
  "fireCycles (numeral k) m w
     = (case fst (backup m w) of (m1, w1) \<Rightarrow> fireCycles (pred_numeral k) m1 w1)"
  by (simp add: numeral_eq_Suc)

lemma exampleWorld_start: "exampleWorld es = (exampleWorld es)\<lparr>clockReads := 0\<rparr>"
  by (simp add: exampleWorld_def)

lemma exampleWorld_listDir: "listDir ((exampleWorld es)\<lparr>clockReads := n\<rparr>) = es"
  by (simp add: listDir_def exampleWorld_def)

lemma exampleFourCycles:
  "fireCycles 1 (exampleManager\<lparr>backupRules := [dailyRule]\<rparr>) ((exampleWorld [])\<lparr>clockReads := 0\<rparr>)
     = (exampleManager\<lparr>backupRules := [dailyRule\<lparr>lastBackupSeconds := 1704067200\<rparr>]\<rparr>,
        (exampleWorld [''backup-daily-2024-01-01_00-00-01.zip''])\<lparr>clockReads := 2\<rparr>)"
  "fireCycles 4 (exampleManager\<lparr>backupRules := [dailyRule]\<rparr>) ((exampleWorld [])\<lparr>clockReads := 0\<rparr>)
     = (exampleManager\<lparr>backupRules := [dailyRule\<lparr>lastBackupSeconds := 1704585600\<rparr>]\<rparr>,
        (exampleWorld [''backup-daily-2024-01-01_00-00-01.zip'', ''backup-daily-2024-01-03_00-00-01.zip'',
                       ''backup-daily-2024-01-05_00-00-01.zip'', ''backup-daily-2024-01-07_00-00-01.zip''])
          \<lparr>clockReads := 8\<rparr>)"
  by (simp_all add: fireCycles_numeral exampleCycle1 exampleCycle2 exampleCycle3 exampleCycle4)

section \<open>Lemmas on the calendar\<close>

lemma div_bounds:
  fixes x k :: int
  assumes "0 < k"
  shows "k * (x div k) \<le> x" and "x < k * (x div k) + k"
proof -
  have "x = k * (x div k) + x mod k" by simp
  moreover have "0 \<le> x mod k" "x mod k < k" using assms by simp_all
  ultimately show "k * (x div k) \<le> x" and "x < k * (x div k) + k" by linarith+
qed

lemma leapDays_bound:
  assumes "a \<le> b"
  shows "97 * (b - a) - 1095 \<le> 400 * (leapDays b - leapDays a)"
proof -
  have "100 * b - 300 \<le> 400 * (b div 4)" using div_bounds(2)[of 4 b] by linarith
  moreover have "400 * (a div 4) \<le> 100 * a" using div_bounds(1)[of 4 a] by linarith
  moreover have "400 * (b div 100) \<le> 4 * b" using div_bounds(1)[of 100 b] by linarith
  moreover have "4 * a - 396 \<le> 400 * (a div 100)" using div_bounds(2)[of 100 a] by linarith
  moreover have "b - 399 \<le> 400 * (b div 400)" using div_bounds(2)[of 400 b] by linarith
  moreover have "400 * (a div 400) \<le> a" using div_bounds(1)[of 400 a] by linarith
  ultimately show ?thesis by (simp add: leapDays_def algebra_simps)
qed

lemma div_next:
  fixes x :: int and k :: int
  assumes "1 < k"
  shows "(x + 1) div k = x div k + (if (x + 1) mod k = 0 then 1 else 0)"
proof -
  have r: "0 \<le> x mod k" "x mod k < k" using assms by simp_all
  have d: "(x + 1) div k = x div k + (x mod k + 1) div k"
    using assms div_add1_eq[of x 1 k] by simp
  have m: "(x + 1) mod k = (x mod k + 1) mod k"
    by (simp add: mod_add_left_eq)
  show ?thesis
  proof (cases "x mod k + 1 = k")
    case True
    then show ?thesis using assms by (simp add: d m)
  next
    case False
    then have "x mod k + 1 < k" using r by simp
    then have "(x mod k + 1) div k = 0" "(x mod k + 1) mod k = x mod k + 1"
      using r by (simp_all add: div_pos_pos_trivial mod_pos_pos_trivial)
    then show ?thesis using r by (simp add: d m)
  qed
qed

lemma mod_4800:
  fixes y :: int
  shows "(y + 4800) mod 4 = y mod 4" "(y + 4800) mod 100 = y mod 100"
    "(y + 4800) mod 400 = y mod 400"
  using mod_mult_self2[of y 4 1200] mod_mult_self2[of y 100 48] mod_mult_self2[of y 400 12]
  by simp_all

lemma mod_4_100:
  fixes y :: int
  shows "y mod 100 = 0 \<Longrightarrow> y mod 4 = 0" "y mod 400 = 0 \<Longrightarrow> y mod 100 = 0"
  by (auto simp: mod_eq_0_iff_dvd elim: dvd_trans[rotated])

lemma leapDays_next:
  assumes "1 \<le> y"
  shows "leapDays (y + 4800) = leapDays (y + 4799) + leapDay y"
proof -
  have l: "isLeapYear y = ((y mod 4 = 0 \<and> y mod 100 \<noteq> 0) \<or> y mod 400 = 0)"
    using assms by (simp add: isLeapYear_def Let_def)
  have e: "(y + 4799) + 1 = y + 4800" by simp
  have a: "(y + 4800) div 4 = (y + 4799) div 4 + (if y mod 4 = 0 then 1 else 0)"
    using div_next[of 4 "y + 4799"] unfolding e mod_4800 by simp
  have b: "(y + 4800) div 100 = (y + 4799) div 100 + (if y mod 100 = 0 then 1 else 0)"
    using div_next[of 100 "y + 4799"] unfolding e mod_4800 by simp
  have c: "(y + 4800) div 400 = (y + 4799) div 400 + (if y mod 400 = 0 then 1 else 0)"
    using div_next[of 400 "y + 4799"] unfolding e mod_4800 by simp
  show ?thesis
    unfolding leapDays_def leapDay_def l a b c
    using mod_4_100[of y] by (cases "y mod 4 = 0"; cases "y mod 100 = 0"; cases "y mod 400 = 0") simp_all
qed

lemma julianDay_leapDays:
  "julianDayFromDate y m d =
     (let a = (14 - m) div 12;
          yy = (if y < 0 then y + 1 else y) + 4800 - a;
          mm = m + 12 * a - 3
      in d + (153 * mm + 2) div 5 + 365 * yy + leapDays yy - 32045)"
  by (simp add: julianDayFromDate_def leapDays_def Let_def)

lemma month_cases:
  fixes m :: int
  assumes "1 \<le> m" "m \<le> 12"
  shows "m = 1 \<or> m = 2 \<or> m = 3 \<or> m = 4 \<or> m = 5 \<or> m = 6 \<or> m = 7 \<or> m = 8 \<or> m = 9
         \<or> m = 10 \<or> m = 11 \<or> m = 12"
  using assms by arith

lemma julianDay_table:
  assumes "1 \<le> y" "1 \<le> m" "m \<le> 12"
  shows "julianDayFromDate y m d = yearBase y + monthBase y m + d"
  using month_cases[OF assms(2,3)] assms(1)
  by (elim disjE)
     (simp_all add: julianDay_leapDays Let_def yearBase_def monthBase_def leapDays_next,
      simp_all add: add.commute)

lemma leapDay_range: "0 \<le> leapDay y" "leapDay y \<le> 1"
  by (simp_all add: leapDay_def)

lemma monthBase_next:
  assumes "1 \<le> m" "m \<le> 11"
  shows "monthBase y (m + 1) = monthBase y m + daysInMonth y m"
proof -
  have "m = 1 \<or> m = 2 \<or> m = 3 \<or> m = 4 \<or> m = 5 \<or> m = 6 \<or> m = 7 \<or> m = 8 \<or> m = 9
         \<or> m = 10 \<or> m = 11"
    using assms by arith
  then show ?thesis
    by (elim disjE) (simp_all add: monthBase_def daysInMonth_def leapDay_def)
qed

lemma monthBase_mono:
  assumes "1 \<le> m1" "m1 \<le> m2" "m2 \<le> 12"
  shows "monthBase y m1 \<le> monthBase y m2"
proof -
  have "nat (m2 - m1) = k \<Longrightarrow> 1 \<le> m1 \<Longrightarrow> m1 \<le> m2 \<Longrightarrow> m2 \<le> 12
        \<Longrightarrow> monthBase y m1 \<le> monthBase y m2" for k m1 m2
  proof (induction k arbitrary: m2)
    case 0
    then have "m1 = m2" by simp
    then show ?case by simp
  next
    case (Suc k)
    then have a: "nat ((m2 - 1) - m1) = k" "m1 \<le> m2 - 1" "m2 - 1 \<le> 12" "1 \<le> m2 - 1" "m2 - 1 \<le> 11"
      by simp_all
    have "monthBase y m1 \<le> monthBase y (m2 - 1)" using Suc.IH[OF a(1) Suc.prems(2) a(2,3)] .
    also have "\<dots> \<le> monthBase y (m2 - 1) + daysInMonth y (m2 - 1)"
      by (simp add: daysInMonth_def)
    also have "\<dots> = monthBase y m2" using monthBase_next[OF a(4,5), of y] by simp
    finally show ?case .
  qed
  then show ?thesis using assms by blast
qed

lemma monthBase_bounds:
  assumes "1 \<le> m" "m \<le> 12"
  shows "306 \<le> monthBase y m" "monthBase y m + daysInMonth y m \<le> 671 + leapDay y"
proof -
  show "306 \<le> monthBase y m"
    using monthBase_mono[of 1 m y] assms by (simp add: monthBase_def)
  have "monthBase y m + daysInMonth y m \<le> monthBase y 12 + daysInMonth y 12"
  proof (cases "m = 12")
    case True
    then show ?thesis by simp
  next
    case False
    then have "m + 1 \<le> 12" "m \<le> 11" using assms by simp_all
    then have "monthBase y m + daysInMonth y m = monthBase y (m + 1)"
      using monthBase_next[of m y] assms by simp
    also have "\<dots> \<le> monthBase y 12"
      using monthBase_mono[of "m + 1" 12 y] assms \<open>m \<le> 11\<close> by simp
    also have "\<dots> \<le> monthBase y 12 + daysInMonth y 12" by (simp add: daysInMonth_def)
    finally show ?thesis .
  qed
  then show "monthBase y m + daysInMonth y m \<le> 671 + leapDay y"
    by (simp add: monthBase_def daysInMonth_def)
qed

lemma yearBase_next:
  "1 \<le> y \<Longrightarrow> yearBase (y + 1) = yearBase y + 365 + leapDay y"
  using leapDays_next[of y] by (simp add: yearBase_def add.commute)

lemma yearBase_far:
  assumes "y1 + 2 \<le> y2"
  shows "yearBase y1 + 727 \<le> yearBase y2"
proof -
  have "97 * ((y2 + 4799) - (y1 + 4799)) - 1095
        \<le> 400 * (leapDays (y2 + 4799) - leapDays (y1 + 4799))"
    using assms by (intro leapDays_bound) simp
  then have "400 * (yearBase y1 + 727) \<le> 400 * yearBase y2"
    using assms by (simp add: yearBase_def algebra_simps)
  then show ?thesis by simp
qed

lemma julianDay_mono:
  assumes y: "1 \<le> y1" "1 \<le> y2"
    and m: "1 \<le> m1" "m1 \<le> 12" "1 \<le> m2" "m2 \<le> 12"
    and d: "1 \<le> d1" "d1 \<le> daysInMonth y1 m1" "1 \<le> d2" "d2 \<le> daysInMonth y2 m2"
    and lt: "y1 < y2 \<or> (y1 = y2 \<and> (m1 < m2 \<or> (m1 = m2 \<and> d1 < d2)))"
  shows "julianDayFromDate y1 m1 d1 < julianDayFromDate y2 m2 d2"
proof -
  have t: "julianDayFromDate y1 m1 d1 = yearBase y1 + monthBase y1 m1 + d1"
    "julianDayFromDate y2 m2 d2 = yearBase y2 + monthBase y2 m2 + d2"
    using y m by (simp_all add: julianDay_table)
  have hi: "monthBase y1 m1 + d1 \<le> 671 + leapDay y1"
    using monthBase_bounds(2)[OF m(1,2), of y1] d by simp
  have lo: "307 \<le> monthBase y2 m2 + d2"
    using monthBase_bounds(1)[OF m(3,4), of y2] d by simp
  consider (far) "y1 + 2 \<le> y2" | (adjacent) "y2 = y1 + 1" | (same) "y1 = y2" "m1 < m2"
    | (month) "y1 = y2" "m1 = m2" "d1 < d2"
    using lt by arith
  then show ?thesis
  proof cases
    case far
    then show ?thesis using yearBase_far[OF far] hi lo leapDay_range[of y1] unfolding t by linarith
  next
    case adjacent
    then have "yearBase y2 = yearBase y1 + 365 + leapDay y1"
      using yearBase_next[OF y(1)] by simp
    then show ?thesis using hi lo unfolding t by linarith
  next
    case same
    then have "m1 + 1 \<le> m2" "m1 \<le> 11" using m by simp_all
    then have "monthBase y1 m1 + daysInMonth y1 m1 \<le> monthBase y1 m2"
      using monthBase_next[of m1 y1] monthBase_mono[of "m1 + 1" m2 y1] m by simp
    then show ?thesis using same d unfolding t by simp
  next
    case month
    then show ?thesis unfolding t by simp
  qed
qed

lemma toSecsSinceEpoch_mono:
  assumes v: "isValidCalendarTime a" "isValidCalendarTime b"
    and y: "1 \<le> year a" "1 \<le> year b"
    and lt: "calendarBefore a b"
  shows "toSecsSinceEpoch a < toSecsSinceEpoch b"
proof (cases "year a = year b \<and> month a = month b \<and> day a = day b")
  case True
  then have "hour a < hour b \<or> hour a = hour b \<and>
             (minute a < minute b \<or> minute a = minute b \<and> second a < second b)"
    using lt by (simp add: calendarBefore_def)
  then have "hour a * 3600 + minute a * 60 + second a < hour b * 3600 + minute b * 60 + second b"
    using v by (auto simp: isValidCalendarTime_def)
  then show ?thesis using True by (simp add: toSecsSinceEpoch_def)
next
  case False
  then have "year a < year b \<or> (year a = year b \<and>
               (month a < month b \<or> (month a = month b \<and> day a < day b)))"
    using lt by (auto simp: calendarBefore_def)
  then have "julianDayFromDate (year a) (month a) (day a)
             < julianDayFromDate (year b) (month b) (day b)"
    using v y by (intro julianDay_mono) (simp_all add: isValidCalendarTime_def)
  then have "(julianDayFromDate (year a) (month a) (day a) - 2440588) * 86400 + 86400
             \<le> (julianDayFromDate (year b) (month b) (day b) - 2440588) * 86400"
    by simp
  moreover have "hour a * 3600 + minute a * 60 + second a < 86400"
    "0 \<le> hour b * 3600 + minute b * 60 + second b"
    using v by (simp_all add: isValidCalendarTime_def)
  ultimately show ?thesis by (simp add: toSecsSinceEpoch_def)
qed

lemma calendarBefore_total:
  "calendarBefore a b \<or> calendarBefore b a
   \<or> (year a = year b \<and> month a = month b \<and> day a = day b \<and> hour a = hour b
       \<and> minute a = minute b \<and> second a = second b)"
  unfolding calendarBefore_def by linarith

lemma toSecsSinceEpoch_order:
  assumes v: "isValidCalendarTime a" "isValidCalendarTime b"
    and y: "1 \<le> year a" "1 \<le> year b"
  shows "toSecsSinceEpoch a < toSecsSinceEpoch b \<longleftrightarrow> calendarBefore a b"
proof
  assume "calendarBefore a b"
  then show "toSecsSinceEpoch a < toSecsSinceEpoch b" by (rule toSecsSinceEpoch_mono[OF v y])
next
  assume s: "toSecsSinceEpoch a < toSecsSinceEpoch b"
  show "calendarBefore a b"
  proof (rule ccontr)
    assume n: "\<not> calendarBefore a b"
    from calendarBefore_total[of a b] n consider (gt) "calendarBefore b a"
      | (eq) "year a = year b" "month a = month b" "day a = day b" "hour a = hour b"
             "minute a = minute b" "second a = second b"
      by blast
    then show False
    proof cases
      case gt
      then have "toSecsSinceEpoch b < toSecsSinceEpoch a"
        by (rule toSecsSinceEpoch_mono[OF v(2,1) y(2,1)])
      with s show False by simp
    next
      case eq
      then have "toSecsSinceEpoch a = toSecsSinceEpoch b" by (simp add: toSecsSinceEpoch_def)
      with s show False by simp
    qed
  qed
qed

section \<open>Lemmas on the order of the file names\<close>

lemma append_less_same_length:
  fixes a b :: "'a::linorder list"
  assumes "length a = length b"
  shows "(a @ x < b @ y) = (a < b \<or> a = b \<and> x < y)"
  using assms by (induction a b rule: list_induct2) auto

lemma prefix_less: 
  fixes x y :: "'a::linorder list"
  shows "(p @ x < p @ y) = (x < y)"
  by (simp add: append_less_same_length)

lemma suffix_less:
  fixes a b :: "'a::linorder list"
  assumes "length a = length b"
  shows "(a @ s < b @ s) = (a < b)"
  by (simp add: append_less_same_length[OF assms])

lemma digit_order:
  assumes "isDigit a" "isDigit b"
  shows "(a < b) = (digitValue a < digitValue b)" "(a = b) = (digitValue a = digitValue b)"
    "0 \<le> digitValue a" "digitValue a \<le> 9"
  using assms by (auto simp: isDigit_def digitValue_def less_char_def)

lemma toNumber_snoc: "toNumber (xs @ [c]) = 10 * toNumber xs + digitValue c"
  by (simp add: toNumber_def)

lemma decimal_step:
  fixes X Y v w :: int
  assumes "0 \<le> v" "v \<le> 9" "0 \<le> w" "w \<le> 9"
  shows "(10 * X + v < 10 * Y + w) = (X < Y \<or> X = Y \<and> v < w)"
    "(10 * X + v = 10 * Y + w) = (X = Y \<and> v = w)"
  using assms by presburger+

lemma digits_order:
  assumes "length xs = length ys" "\<forall>c\<in>set xs. isDigit c" "\<forall>c\<in>set ys. isDigit c"
  shows "(xs < ys) = (toNumber xs < toNumber ys) \<and> (xs = ys) = (toNumber xs = toNumber ys)"
  using assms
proof (induction xs arbitrary: ys rule: rev_induct)
  case Nil
  then show ?case by (simp add: toNumber_def)
next
  case (snoc c xs)
  then obtain d zs where ys: "ys = zs @ [d]" and len: "length xs = length zs"
    by (cases ys rule: rev_cases) auto
  have ih: "(xs < zs) = (toNumber xs < toNumber zs) \<and> (xs = zs) = (toNumber xs = toNumber zs)"
    using snoc.IH[OF len] snoc.prems ys by simp
  have dc: "isDigit c" "isDigit d" using snoc.prems ys by simp_all
  have "(xs @ [c] < zs @ [d]) = (xs < zs \<or> xs = zs \<and> c < d)"
    by (simp add: append_less_same_length[OF len])
  then show ?case
    unfolding ys toNumber_snoc
    using ih digit_order[OF dc] digit_order(3,4)[OF dc(2) dc(1)]
      decimal_step[of "digitValue c" "digitValue d" "toNumber xs" "toNumber zs"]
    by auto
qed

lemma literal_atoms: "list_all2 matchAtom (map Lit s) u = (u = s)"
proof (induction s arbitrary: u)
  case Nil
  show ?case by simp
next
  case (Cons c s)
  show ?case by (cases u) (auto simp: Cons.IH)
qed

lemma exactMatch_shape:
  assumes "exactMatch (formatRE format) e"
  shows "e = format @ cap1 format e @ ''.zip''"
    and "list_all2 matchAtom DATETIME_FORMAT_RE (cap1 format e)"
proof -
  from assms obtain u r where e: "e = u @ r" and u: "list_all2 matchAtom (map Lit format) u"
    and r: "list_all2 matchAtom (DATETIME_FORMAT_RE @ map Lit ''.zip'') r"
    unfolding exactMatch_def formatRE_def list_all2_append1 by blast
  from r obtain v w where rr: "r = v @ w" and v: "list_all2 matchAtom DATETIME_FORMAT_RE v"
    and w: "list_all2 matchAtom (map Lit ''.zip'') w"
    unfolding list_all2_append1 by blast
  have uf: "u = format" using u by (simp only: literal_atoms)
  have wz: "w = ''.zip''" using w by (simp only: literal_atoms)
  have lv: "length v = length DATETIME_FORMAT_RE" using v by (simp add: list_all2_lengthD)
  have c: "cap1 format e = v" by (simp add: cap1_def e uf rr lv)
  show "e = format @ cap1 format e @ ''.zip''" unfolding c by (simp add: e uf rr wz)
  show "list_all2 matchAtom DATETIME_FORMAT_RE (cap1 format e)" using v c by simp
qed

lemma stamp_shape:
  assumes "list_all2 matchAtom DATETIME_FORMAT_RE ts"
  shows "ts = take 4 ts @ ''-'' @ take 2 (drop 5 ts) @ ''-'' @ take 2 (drop 8 ts) @ ''_''
              @ take 2 (drop 11 ts) @ ''-'' @ take 2 (drop 14 ts) @ ''-'' @ take 2 (drop 17 ts)"
    and "length (take 4 ts) = 4" "length (take 2 (drop 5 ts)) = 2" "length (take 2 (drop 8 ts)) = 2"
      "length (take 2 (drop 11 ts)) = 2" "length (take 2 (drop 14 ts)) = 2"
      "length (take 2 (drop 17 ts)) = 2"
    and "\<forall>c\<in>set (take 4 ts). isDigit c" "\<forall>c\<in>set (take 2 (drop 5 ts)). isDigit c"
      "\<forall>c\<in>set (take 2 (drop 8 ts)). isDigit c" "\<forall>c\<in>set (take 2 (drop 11 ts)). isDigit c"
      "\<forall>c\<in>set (take 2 (drop 14 ts)). isDigit c" "\<forall>c\<in>set (take 2 (drop 17 ts)). isDigit c"
proof -
  from assms obtain a1 a2 a3 a4 b1 b2 c1 c2 d1 d2 e1 e2 f1 f2 where
    ts: "ts = [a1, a2, a3, a4, CHR ''-'', b1, b2, CHR ''-'', c1, c2, CHR ''_'', d1, d2,
               CHR ''-'', e1, e2, CHR ''-'', f1, f2]"
    and dg: "isDigit a1" "isDigit a2" "isDigit a3" "isDigit a4" "isDigit b1" "isDigit b2"
      "isDigit c1" "isDigit c2" "isDigit d1" "isDigit d2" "isDigit e1" "isDigit e2"
      "isDigit f1" "isDigit f2"
    unfolding DATETIME_FORMAT_RE_def by (auto simp: list_all2_Cons1)
  show "ts = take 4 ts @ ''-'' @ take 2 (drop 5 ts) @ ''-'' @ take 2 (drop 8 ts) @ ''_''
              @ take 2 (drop 11 ts) @ ''-'' @ take 2 (drop 14 ts) @ ''-'' @ take 2 (drop 17 ts)"
    by (simp add: ts)
  show "length (take 4 ts) = 4" "length (take 2 (drop 5 ts)) = 2" "length (take 2 (drop 8 ts)) = 2"
      "length (take 2 (drop 11 ts)) = 2" "length (take 2 (drop 14 ts)) = 2"
      "length (take 2 (drop 17 ts)) = 2"
    by (simp_all add: ts)
  show "\<forall>c\<in>set (take 4 ts). isDigit c" "\<forall>c\<in>set (take 2 (drop 5 ts)). isDigit c"
      "\<forall>c\<in>set (take 2 (drop 8 ts)). isDigit c" "\<forall>c\<in>set (take 2 (drop 11 ts)). isDigit c"
      "\<forall>c\<in>set (take 2 (drop 14 ts)). isDigit c" "\<forall>c\<in>set (take 2 (drop 17 ts)). isDigit c"
    using dg by (simp_all add: ts)
qed

lemma toNumber_nonneg: "\<forall>c\<in>set xs. isDigit c \<Longrightarrow> 0 \<le> toNumber xs"
proof (induction xs rule: rev_induct)
  case Nil
  show ?case by (simp add: toNumber_def)
next
  case (snoc c xs)
  then have "0 \<le> toNumber xs" "0 \<le> digitValue c"
    by (simp_all add: isDigit_def digitValue_def)
  then show ?case by (simp add: toNumber_snoc)
qed

lemma fromString_fields:
  assumes "fromString ts = Some t"
  shows "list_all2 matchAtom DATETIME_FORMAT_RE ts" "isValidCalendarTime t"
    "year t = toNumber (take 4 ts)" "month t = toNumber (take 2 (drop 5 ts))"
    "day t = toNumber (take 2 (drop 8 ts))" "hour t = toNumber (take 2 (drop 11 ts))"
    "minute t = toNumber (take 2 (drop 14 ts))" "second t = toNumber (take 2 (drop 17 ts))"
  using assms by (auto simp: fromString_def Let_def split: if_splits)

lemma fields_less:
  fixes a1 a2 a3 a4 a5 a6 :: "'a::linorder list"
  assumes "length a1 = length b1" "length a2 = length b2" "length a3 = length b3"
    "length a4 = length b4" "length a5 = length b5"
  shows "(a1 @ s1 @ a2 @ s2 @ a3 @ s3 @ a4 @ s4 @ a5 @ s5 @ a6
          < b1 @ s1 @ b2 @ s2 @ b3 @ s3 @ b4 @ s4 @ b5 @ s5 @ b6) =
         (a1 < b1 \<or> a1 = b1 \<and>
           (a2 < b2 \<or> a2 = b2 \<and>
             (a3 < b3 \<or> a3 = b3 \<and>
               (a4 < b4 \<or> a4 = b4 \<and>
                 (a5 < b5 \<or> a5 = b5 \<and> a6 < b6)))))"
  by (simp only: append_less_same_length[OF assms(1)] append_less_same_length[OF assms(2)]
      append_less_same_length[OF assms(3)] append_less_same_length[OF assms(4)]
      append_less_same_length[OF assms(5)] prefix_less)

lemma stamp_order:
  assumes a: "fromString ts = Some t" and b: "fromString ts' = Some t'"
  shows "(ts < ts') = calendarBefore t t'"
proof -
  note fa = fromString_fields[OF a] and fb = fromString_fields[OF b]
  note sa = stamp_shape[OF fa(1)] and sb = stamp_shape[OF fb(1)]
  define Y Mo D H Mi S where "Y = take 4 ts" and "Mo = take 2 (drop 5 ts)"
    and "D = take 2 (drop 8 ts)" and "H = take 2 (drop 11 ts)" and "Mi = take 2 (drop 14 ts)"
    and "S = take 2 (drop 17 ts)"
  define Y' Mo' D' H' Mi' S' where "Y' = take 4 ts'" and "Mo' = take 2 (drop 5 ts')"
    and "D' = take 2 (drop 8 ts')" and "H' = take 2 (drop 11 ts')"
    and "Mi' = take 2 (drop 14 ts')" and "S' = take 2 (drop 17 ts')"
  have ts: "ts = Y @ ''-'' @ Mo @ ''-'' @ D @ ''_'' @ H @ ''-'' @ Mi @ ''-'' @ S"
    unfolding Y_def Mo_def D_def H_def Mi_def S_def by (rule sa(1))
  have ts': "ts' = Y' @ ''-'' @ Mo' @ ''-'' @ D' @ ''_'' @ H' @ ''-'' @ Mi' @ ''-'' @ S'"
    unfolding Y'_def Mo'_def D'_def H'_def Mi'_def S'_def by (rule sb(1))
  have l: "length Y = length Y'" "length Mo = length Mo'" "length D = length D'"
    "length H = length H'" "length Mi = length Mi'" "length S = length S'"
    by (simp_all only: Y_def Mo_def D_def H_def Mi_def S_def Y'_def Mo'_def D'_def H'_def
        Mi'_def S'_def sa(2-7) sb(2-7))
  have oY: "(Y < Y') = (year t < year t') \<and> (Y = Y') = (year t = year t')"
    unfolding fa(3) fb(3) Y_def Y'_def
    by (rule digits_order[OF l(1)[unfolded Y_def Y'_def] sa(8) sb(8)])
  have oMo: "(Mo < Mo') = (month t < month t') \<and> (Mo = Mo') = (month t = month t')"
    unfolding fa(4) fb(4) Mo_def Mo'_def
    by (rule digits_order[OF l(2)[unfolded Mo_def Mo'_def] sa(9) sb(9)])
  have oD: "(D < D') = (day t < day t') \<and> (D = D') = (day t = day t')"
    unfolding fa(5) fb(5) D_def D'_def
    by (rule digits_order[OF l(3)[unfolded D_def D'_def] sa(10) sb(10)])
  have oH: "(H < H') = (hour t < hour t') \<and> (H = H') = (hour t = hour t')"
    unfolding fa(6) fb(6) H_def H'_def
    by (rule digits_order[OF l(4)[unfolded H_def H'_def] sa(11) sb(11)])
  have oMi: "(Mi < Mi') = (minute t < minute t') \<and> (Mi = Mi') = (minute t = minute t')"
    unfolding fa(7) fb(7) Mi_def Mi'_def
    by (rule digits_order[OF l(5)[unfolded Mi_def Mi'_def] sa(12) sb(12)])
  have oS: "(S < S') = (second t < second t') \<and> (S = S') = (second t = second t')"
    unfolding fa(8) fb(8) S_def S'_def
    by (rule digits_order[OF l(6)[unfolded S_def S'_def] sa(13) sb(13)])
  have "(ts < ts') =
        (Y < Y' \<or> Y = Y' \<and>
          (Mo < Mo' \<or> Mo = Mo' \<and>
            (D < D' \<or> D = D' \<and>
              (H < H' \<or> H = H' \<and>
                (Mi < Mi' \<or> Mi = Mi' \<and> S < S')))))"
    unfolding ts ts' by (rule fields_less[OF l(1-5)])
  also have "\<dots> = calendarBefore t t'"
    unfolding calendarBefore_def
    by (simp only: oY oMo oD oH oMi oS)
  finally show ?thesis .
qed

lemma name_order_is_time_order:
  assumes "validEntry format e1" "validEntry format e2"
  shows "(e1 < e2) = (instantOf format e1 < instantOf format e2)"
proof -
  from assms obtain t1 t2 where t: "fromString (cap1 format e1) = Some t1"
    "fromString (cap1 format e2) = Some t2"
    by (auto simp: validEntry_def)
  have m: "exactMatch (formatRE format) e1" "exactMatch (formatRE format) e2"
    using assms by (simp_all add: validEntry_def)
  note s1 = exactMatch_shape[OF m(1)] and s2 = exactMatch_shape[OF m(2)]
  define c1 c2 where "c1 = cap1 format e1" and "c2 = cap1 format e2"
  have e: "e1 = format @ c1 @ ''.zip''" "e2 = format @ c2 @ ''.zip''"
    unfolding c1_def c2_def by (rule s1(1), rule s2(1))
  have len: "length c1 = length c2"
    unfolding c1_def c2_def
    using list_all2_lengthD[OF s1(2)] list_all2_lengthD[OF s2(2)] by simp
  have "(e1 < e2) = (c1 < c2)"
    unfolding e by (simp only: prefix_less suffix_less[OF len])
  also have "\<dots> = calendarBefore t1 t2"
    unfolding c1_def c2_def by (rule stamp_order[OF t])
  also have "\<dots> = (toSecsSinceEpoch t1 < toSecsSinceEpoch t2)"
  proof -
    note f1 = fromString_fields[OF t(1)] and f2 = fromString_fields[OF t(2)]
    have "0 \<le> year t1" "0 \<le> year t2"
      unfolding f1(3) f2(3)
      by (rule toNumber_nonneg[OF stamp_shape(8)[OF f1(1)]],
          rule toNumber_nonneg[OF stamp_shape(8)[OF f2(1)]])
    moreover have "year t1 \<noteq> 0" "year t2 \<noteq> 0"
      using f1(2) f2(2) by (simp_all add: isValidCalendarTime_def)
    ultimately have "1 \<le> year t1" "1 \<le> year t2" by simp_all
    then show ?thesis using toSecsSinceEpoch_order[OF f1(2) f2(2)] by simp
  qed
  also have "\<dots> = (instantOf format e1 < instantOf format e2)"
    by (simp add: instantOf_def t)
  finally show ?thesis .
qed

section \<open>Lemmas on the files that a cycle writes\<close>



lemma openForWrite_frame:
  "clock (snd (openForWrite f w)) = clock w"
  "clockReads (snd (openForWrite f w)) = clockReads w"
  "mayCreate (snd (openForWrite f w)) = mayCreate w"
  "dirExists (snd (openForWrite f w)) = dirExists w"
  by (simp_all add: openForWrite_def dirExists_def split: option.splits)

lemma removeOld_frame:
  "clock (fst (removeOldBackupVersions m rule w)) = clock w"
  "clockReads (fst (removeOldBackupVersions m rule w)) = clockReads w"
  "mayCreate (fst (removeOldBackupVersions m rule w)) = mayCreate w"
  "dirExists (fst (removeOldBackupVersions m rule w)) = dirExists w"
proof -
  show "clock (fst (removeOldBackupVersions m rule w)) = clock w"
    by (cases "dirEntries w") (simp_all add: removeOld_fst removeLoop_None removeLoop_world)
  show "clockReads (fst (removeOldBackupVersions m rule w)) = clockReads w"
    by (cases "dirEntries w") (simp_all add: removeOld_fst removeLoop_None removeLoop_world)
  show "mayCreate (fst (removeOldBackupVersions m rule w)) = mayCreate w"
    by (cases "dirEntries w") (simp_all add: removeOld_fst removeLoop_None removeLoop_world)
  show "dirExists (fst (removeOldBackupVersions m rule w)) = dirExists w"
    by (cases "dirEntries w")
       (simp_all add: removeOld_fst removeLoop_None removeLoop_world dirExists_def)
qed

lemma dirExists_clockReads: "dirExists (w\<lparr>clockReads := n\<rparr>) = dirExists w"
  by (simp add: dirExists_def)

lemma backupRule_frame:
  "clock (snd (fst (backupRule m nowSeconds rule w))) = clock w"
  "clockReads (snd (fst (backupRule m nowSeconds rule w)))
     = (if due nowSeconds rule then Suc (clockReads w) else clockReads w)"
  "mayCreate (snd (fst (backupRule m nowSeconds rule w))) = mayCreate w"
  "dirExists (snd (fst (backupRule m nowSeconds rule w))) = dirExists w"
proof -
  show "clock (snd (fst (backupRule m nowSeconds rule w))) = clock w"
    by (cases "due nowSeconds rule")
       (simp_all add: backupRule_fire(1) backupRule_skip removeOld_frame openForWrite_frame)
  show "clockReads (snd (fst (backupRule m nowSeconds rule w)))
     = (if due nowSeconds rule then Suc (clockReads w) else clockReads w)"
    by (cases "due nowSeconds rule")
       (simp_all add: backupRule_fire(1) backupRule_skip removeOld_frame openForWrite_frame)
  show "mayCreate (snd (fst (backupRule m nowSeconds rule w))) = mayCreate w"
    by (cases "due nowSeconds rule")
       (simp_all add: backupRule_fire(1) backupRule_skip removeOld_frame openForWrite_frame)
  show "dirExists (snd (fst (backupRule m nowSeconds rule w))) = dirExists w"
    by (cases "due nowSeconds rule")
       (simp_all add: backupRule_fire(1) backupRule_skip removeOld_frame openForWrite_frame
                      dirExists_clockReads)
qed




lemma backupLoop_frame:
  "clock (snd (fst (backupLoop m nowSeconds rules w))) = clock w"
  "mayCreate (snd (fst (backupLoop m nowSeconds rules w))) = mayCreate w"
  "dirExists (snd (fst (backupLoop m nowSeconds rules w))) = dirExists w"
proof (induction rules arbitrary: w)
  case Nil
  {
    case 1 show ?case by simp
  next
    case 2 show ?case by simp
  next
    case 3 show ?case by simp
  }
next
  case (Cons rule rules)
  {
    case 1 show ?case unfolding backupLoop_world by (simp only: Cons.IH backupRule_frame)
  next
    case 2 show ?case unfolding backupLoop_world by (simp only: Cons.IH backupRule_frame)
  next
    case 3 show ?case unfolding backupLoop_world by (simp only: Cons.IH backupRule_frame)
  }
qed






section \<open>Lemmas on the selection by the scan\<close>

lemma scan_returns_latest_candidate:
  "(e \<in> set (candidates w format)
      \<and> distinct (map (instantOf format) (candidates w format))
      \<and> (\<forall>g\<in>set (candidates w format). instantOf format g \<le> instantOf format e)
     \<longrightarrow> fst (getMostRecentBackup m w format f0 t0)
           = (True, backupDirectory m @ ''/'' @ e, fromString (cap1 format e)))
   \<and> (fst (fst (getMostRecentBackup m w format f0 t0)) \<longleftrightarrow> candidates w format \<noteq> [])
   \<and> fst (getMostRecentBackup m w format f0 t0)
       = fst (getMostRecentBackup m (w\<lparr>dirEntries := Some (candidates w format)\<rparr>) format f0 t0)"
proof (intro conjI impI)
  assume a: "e \<in> set (candidates w format)
      \<and> distinct (map (instantOf format) (candidates w format))
      \<and> (\<forall>g\<in>set (candidates w format). instantOf format g \<le> instantOf format e)"
  then have ve: "validEntry format e" by (simp add: candidates_set)
  from a have inj: "inj_on (instantOf format) (set (candidates w format))"
    by (simp add: distinct_map)
  have strict: "\<forall>g\<in>set (candidates w format).
                  validEntry format g \<and> g \<noteq> e \<longrightarrow> instantOf format g < instantOf format e"
  proof (intro ballI impI)
    fix g assume g: "g \<in> set (candidates w format)" and "validEntry format g \<and> g \<noteq> e"
    then have "instantOf format g \<noteq> instantOf format e"
      using inj a by (auto dest: inj_onD)
    moreover have "instantOf format g \<le> instantOf format e" using a g by simp
    ultimately show "instantOf format g < instantOf format e" by simp
  qed
  have "fst (scanEntries (backupDirectory m) format (candidates w format) (False, [], None))
        = (True, backupDirectory m @ ''/'' @ e, fromString (cap1 format e))"
    using a by (intro scanEntries_max[OF ve _ strict]) simp_all
  then show "fst (getMostRecentBackup m w format f0 t0)
             = (True, backupDirectory m @ ''/'' @ e, fromString (cap1 format e))"
    by (simp add: getMostRecentBackup_fst)
next
  have "fst (fst (scanEntries (backupDirectory m) format (candidates w format) (False, [], None)))
        = (\<exists>e\<in>set (candidates w format). validEntry format e)"
    by (simp add: scanEntries_found_iff)
  also have "\<dots> = (candidates w format \<noteq> [])"
  proof -
    have "\<forall>e\<in>set (candidates w format). validEntry format e" by (simp add: candidates_set)
    then show ?thesis by (cases "candidates w format") auto
  qed
  finally show "fst (fst (getMostRecentBackup m w format f0 t0)) \<longleftrightarrow> candidates w format \<noteq> []"
    by (auto simp: getMostRecentBackup_fst split: prod.splits)
next
  show "fst (getMostRecentBackup m w format f0 t0)
       = fst (getMostRecentBackup m (w\<lparr>dirEntries := Some (candidates w format)\<rparr>) format f0 t0)"
    by (simp only: getMostRecentBackup_fst candidates_idem)
qed

section \<open>Properties of the specification\<close>

text \<open>
  C4 (retention), as the code has it. For a rule with \<open>maxBackupVersions = N > 0\<close> and \<open>M\<close>
  files matching the pattern \<open>extensionFormat + "*.zip"\<close>, one run of
  \<open>removeOldBackupVersions\<close> calls remove on exactly the first \<open>max 0 (M - N)\<close> names of the
  sorted listing, which are smaller than every name it keeps; the kept names stay in the
  directory. Where these removals succeed, exactly those files are gone, \<open>max 0 (M - N)\<close>
  files fewer are in the directory, and the listing afterwards is the \<open>N\<close> greatest names
  (all \<open>M\<close> when \<open>M \<le> N\<close>). Where every matching file is named prefix, timestamp, \<open>.zip\<close>
  with a valid timestamp, the order of the names is the order of the timestamps: every
  file that is to go is older than every file that is kept. For \<open>maxBackupVersions \<le> 0\<close>
  nothing is removed and the directory is as before.

  The order of the names is not the order of time in general, and a removal can fail:
  the pattern is matched without regard to case and the names are sorted with regard to
  it, so \<open>DAILY-2025-01-01_00-00-00.zip\<close> comes before three archives of 2024 and is the one
  removed; and in a directory from which nothing can be removed, remove is called on two
  of five archives and all five stay.
\<close>

theorem retention_keeps_newest:
  "(0 < maxBackupVersions rule \<longrightarrow>
      attemptedRemovals (snd (removeOldBackupVersions m rule w))
        = map (\<lambda>f. backupDirectory m @ ''/'' @ f) (doomed rule w)
      \<and> doomed rule w
          = take (length (doomed rule w)) (entryInfoList (extensionFormat rule @ ''*.zip'') w)
      \<and> int (length (doomed rule w))
          = max 0 (int (length (entryInfoList (extensionFormat rule @ ''*.zip'') w))
                   - maxBackupVersions rule))
   \<and> (0 < maxBackupVersions rule \<and> distinct (listDir w) \<longrightarrow>
      set (drop (length (doomed rule w)) (entryInfoList (extensionFormat rule @ ''*.zip'') w))
        \<subseteq> set (listDir (fst (removeOldBackupVersions m rule w)))
      \<and> (\<forall>d\<in>set (doomed rule w).
            \<forall>k\<in>set (drop (length (doomed rule w))
                          (entryInfoList (extensionFormat rule @ ''*.zip'') w)). d < k))
   \<and> (0 < maxBackupVersions rule \<and> distinct (listDir w)
        \<and> (\<forall>f\<in>set (doomed rule w). mayRemove w f) \<longrightarrow>
      listDir (fst (removeOldBackupVersions m rule w))
        = filter (\<lambda>f. f \<notin> set (doomed rule w)) (listDir w)
      \<and> entryInfoList (extensionFormat rule @ ''*.zip'') (fst (removeOldBackupVersions m rule w))
          = drop (length (doomed rule w)) (entryInfoList (extensionFormat rule @ ''*.zip'') w)
      \<and> int (length (listDir w)) - int (length (listDir (fst (removeOldBackupVersions m rule w))))
          = max 0 (int (length (entryInfoList (extensionFormat rule @ ''*.zip'') w))
                   - maxBackupVersions rule)
      \<and> int (length (entryInfoList (extensionFormat rule @ ''*.zip'')
                        (fst (removeOldBackupVersions m rule w))))
          = min (int (length (entryInfoList (extensionFormat rule @ ''*.zip'') w)))
                (maxBackupVersions rule))
   \<and> (0 < maxBackupVersions rule \<and> distinct (listDir w)
        \<and> (\<forall>f\<in>set (entryInfoList (extensionFormat rule @ ''*.zip'') w).
              validEntry (extensionFormat rule) f) \<longrightarrow>
      (\<forall>d\<in>set (doomed rule w).
         \<forall>k\<in>set (drop (length (doomed rule w))
                       (entryInfoList (extensionFormat rule @ ''*.zip'') w)).
           instantOf (extensionFormat rule) d < instantOf (extensionFormat rule) k))
   \<and> (maxBackupVersions rule \<le> 0 \<longrightarrow>
        fst (removeOldBackupVersions m rule w) = w
        \<and> attemptedRemovals (snd (removeOldBackupVersions m rule w)) = [])"
proof (intro conjI impI)
  assume "0 < maxBackupVersions rule"
  then show "attemptedRemovals (snd (removeOldBackupVersions m rule w))
        = map (\<lambda>f. backupDirectory m @ ''/'' @ f) (doomed rule w)"
    by (simp add: removeOld_attempts)
next
  show "doomed rule w
          = take (length (doomed rule w)) (entryInfoList (extensionFormat rule @ ''*.zip'') w)"
    by (rule doomed_take)
next
  assume "0 < maxBackupVersions rule"
  then show "int (length (doomed rule w))
          = max 0 (int (length (entryInfoList (extensionFormat rule @ ''*.zip'') w))
                   - maxBackupVersions rule)"
    by (rule doomed_length)
next
  assume "0 < maxBackupVersions rule \<and> distinct (listDir w)"
  then show "set (drop (length (doomed rule w)) (entryInfoList (extensionFormat rule @ ''*.zip'') w))
        \<subseteq> set (listDir (fst (removeOldBackupVersions m rule w)))"
    by (simp add: removeOld_kept)
next
  assume a: "0 < maxBackupVersions rule \<and> distinct (listDir w)"
  let ?S = "entryInfoList (extensionFormat rule @ ''*.zip'') w"
  have "distinct ?S" using a by (simp add: entryInfoList_distinct)
  moreover have "sorted ?S" by (simp add: entryInfoList_def)
  ultimately show "\<forall>d\<in>set (doomed rule w). \<forall>k\<in>set (drop (length (doomed rule w)) ?S). d < k"
    using take_drop_less[of ?S _ "length (doomed rule w)"] doomed_take[of rule w] by metis
next
  assume a: "0 < maxBackupVersions rule \<and> distinct (listDir w)
        \<and> (\<forall>f\<in>set (doomed rule w). mayRemove w f)"
  then show "listDir (fst (removeOldBackupVersions m rule w))
        = filter (\<lambda>f. f \<notin> set (doomed rule w)) (listDir w)"
    by (simp add: removeOld_all_removed)
  from a show l: "entryInfoList (extensionFormat rule @ ''*.zip'') (fst (removeOldBackupVersions m rule w))
          = drop (length (doomed rule w)) (entryInfoList (extensionFormat rule @ ''*.zip'') w)"
    by (simp add: removeOld_listing)
  from a show "int (length (listDir w)) - int (length (listDir (fst (removeOldBackupVersions m rule w))))
          = max 0 (int (length (entryInfoList (extensionFormat rule @ ''*.zip'') w))
                   - maxBackupVersions rule)"
    by (simp add: removeOld_count)
  from a have "int (length (doomed rule w))
          = max 0 (int (length (entryInfoList (extensionFormat rule @ ''*.zip'') w))
                   - maxBackupVersions rule)"
    by (simp add: doomed_length)
  moreover have "length (doomed rule w) \<le> length (entryInfoList (extensionFormat rule @ ''*.zip'') w)"
    by (simp add: doomed_def Let_def)
  ultimately show "int (length (entryInfoList (extensionFormat rule @ ''*.zip'')
                        (fst (removeOldBackupVersions m rule w))))
          = min (int (length (entryInfoList (extensionFormat rule @ ''*.zip'') w)))
                (maxBackupVersions rule)"
    unfolding l using a by (simp add: of_nat_diff min_def max_def split: if_splits)
next
  assume a: "0 < maxBackupVersions rule \<and> distinct (listDir w)
        \<and> (\<forall>f\<in>set (entryInfoList (extensionFormat rule @ ''*.zip'') w).
              validEntry (extensionFormat rule) f)"
  let ?S = "entryInfoList (extensionFormat rule @ ''*.zip'') w"
  have ds: "distinct ?S" using a by (simp add: entryInfoList_distinct)
  have so: "sorted ?S" by (simp add: entryInfoList_def)
  show "\<forall>d\<in>set (doomed rule w). \<forall>k\<in>set (drop (length (doomed rule w)) ?S).
          instantOf (extensionFormat rule) d < instantOf (extensionFormat rule) k"
  proof (intro ballI)
    fix d k
    assume "d \<in> set (doomed rule w)" and k: "k \<in> set (drop (length (doomed rule w)) ?S)"
    then have d: "d \<in> set (take (length (doomed rule w)) ?S)"
      using doomed_take[of rule w] by simp
    have "d < k" using so ds d k by (rule take_drop_less)
    moreover have "validEntry (extensionFormat rule) d"
      using a in_set_takeD[OF d] by blast
    moreover have "validEntry (extensionFormat rule) k"
      using a in_set_dropD[OF k] by blast
    ultimately show "instantOf (extensionFormat rule) d < instantOf (extensionFormat rule) k"
      by (simp add: name_order_is_time_order)
  qed
next
  assume "maxBackupVersions rule \<le> 0"
  then show "fst (removeOldBackupVersions m rule w) = w" by (rule removeOld_noop)
next
  assume "maxBackupVersions rule \<le> 0"
  then show "attemptedRemovals (snd (removeOldBackupVersions m rule w)) = []"
    by (simp add: removeOld_attempts)
qed

theorem retention_removes_newest_and_keeps_unremovable:
  "maxBackupVersions dailyRule = 3
   \<and> entryInfoList (extensionFormat dailyRule @ ''*.zip'') (exampleWorld mixedCaseArchives)
       = [''DAILY-2025-01-01_00-00-00.zip'', ''daily-2024-01-01_00-00-00.zip'',
          ''daily-2024-02-01_00-00-00.zip'', ''daily-2024-03-01_00-00-00.zip'']
   \<and> listDir (fst (removeOldBackupVersions exampleManager dailyRule (exampleWorld mixedCaseArchives)))
       = [''daily-2024-01-01_00-00-00.zip'', ''daily-2024-02-01_00-00-00.zip'',
          ''daily-2024-03-01_00-00-00.zip'']
   \<and> fromString (cap1 ''daily-'' ''DAILY-2025-01-01_00-00-00.zip'')
       = Some \<lparr>year = 2025, month = 1, day = 1, hour = 0, minute = 0, second = 0\<rparr>
   \<and> instantOf ''daily-'' ''daily-2024-01-01_00-00-00.zip''
       < instantOf ''daily-'' ''DAILY-2025-01-01_00-00-00.zip''
   \<and> instantOf ''daily-'' ''daily-2024-02-01_00-00-00.zip''
       < instantOf ''daily-'' ''DAILY-2025-01-01_00-00-00.zip''
   \<and> instantOf ''daily-'' ''daily-2024-03-01_00-00-00.zip''
       < instantOf ''daily-'' ''DAILY-2025-01-01_00-00-00.zip''
   \<and> length (entryInfoList (extensionFormat dailyRule @ ''*.zip'') (stickyWorld fiveArchives)) = 5
   \<and> attemptedRemovals (snd (removeOldBackupVersions exampleManager dailyRule (stickyWorld fiveArchives)))
       = [''/backups/daily-2024-01-01_00-00-00.zip'', ''/backups/daily-2024-02-01_00-00-00.zip'']
   \<and> listDir (fst (removeOldBackupVersions exampleManager dailyRule (stickyWorld fiveArchives)))
       = fiveArchives"
  by code_simp

theorem retention_keeps_newest_witness:
  "0 < maxBackupVersions dailyRule \<and> distinct (listDir (exampleWorld fiveArchives))
   \<and> list_all (mayRemove (exampleWorld fiveArchives)) (doomed dailyRule (exampleWorld fiveArchives))
   \<and> list_all (validEntry (extensionFormat dailyRule))
        (entryInfoList (extensionFormat dailyRule @ ''*.zip'') (exampleWorld fiveArchives))
   \<and> listDir (fst (removeOldBackupVersions exampleManager dailyRule (exampleWorld fiveArchives)))
       = [''daily-2024-03-01_00-00-00.zip'', ''notes.txt'', ''daily-2024-04-01_00-00-00.zip'',
          ''daily-2024-05-01_00-00-00.zip'']
   \<and> instantOf (extensionFormat dailyRule) ''daily-2024-02-01_00-00-00.zip''
       < instantOf (extensionFormat dailyRule) ''daily-2024-03-01_00-00-00.zip''
   \<and> maxBackupVersions (dailyRule\<lparr>maxBackupVersions := 0\<rparr>) \<le> 0
   \<and> fst (removeOldBackupVersions exampleManager (dailyRule\<lparr>maxBackupVersions := 0\<rparr>)
            (exampleWorld fiveArchives)) = exampleWorld fiveArchives"
proof -
  let ?W = "exampleWorld fiveArchives"
  have l: "list_all (mayRemove ?W) (doomed dailyRule ?W)"
    by code_simp
  have v: "list_all (validEntry (extensionFormat dailyRule))
             (entryInfoList (extensionFormat dailyRule @ ''*.zip'') ?W)"
    by code_simp
  have p: "0 < maxBackupVersions dailyRule \<and> distinct (listDir ?W)"
    by code_simp
  from p l have h: "0 < maxBackupVersions dailyRule \<and> distinct (listDir ?W)
     \<and> (\<forall>f\<in>set (doomed dailyRule ?W). mayRemove ?W f)"
    by (simp add: list_all_iff)
  from p v have g: "0 < maxBackupVersions dailyRule \<and> distinct (listDir ?W)
     \<and> (\<forall>f\<in>set (entryInfoList (extensionFormat dailyRule @ ''*.zip'') ?W).
           validEntry (extensionFormat dailyRule) f)"
    by (simp add: list_all_iff)
  have z: "maxBackupVersions (dailyRule\<lparr>maxBackupVersions := 0\<rparr>) \<le> 0" by simp
  have d: "filter (\<lambda>f. f \<notin> set (doomed dailyRule ?W)) (listDir ?W)
           = [''daily-2024-03-01_00-00-00.zip'', ''notes.txt'', ''daily-2024-04-01_00-00-00.zip'',
              ''daily-2024-05-01_00-00-00.zip'']"
    by code_simp
  have i: "''daily-2024-02-01_00-00-00.zip'' \<in> set (doomed dailyRule ?W)
           \<and> ''daily-2024-03-01_00-00-00.zip''
               \<in> set (drop (length (doomed dailyRule ?W))
                         (entryInfoList (extensionFormat dailyRule @ ''*.zip'') ?W))"
    by code_simp
  note t = retention_keeps_newest[where rule = dailyRule and m = exampleManager and w = ?W]
  from h t
  have r: "listDir (fst (removeOldBackupVersions exampleManager dailyRule ?W))
        = filter (\<lambda>f. f \<notin> set (doomed dailyRule ?W)) (listDir ?W)"
    by blast
  from g t
  have "\<forall>d\<in>set (doomed dailyRule ?W).
          \<forall>k\<in>set (drop (length (doomed dailyRule ?W))
                        (entryInfoList (extensionFormat dailyRule @ ''*.zip'') ?W)).
            instantOf (extensionFormat dailyRule) d < instantOf (extensionFormat dailyRule) k"
    by blast
  with i have o: "instantOf (extensionFormat dailyRule) ''daily-2024-02-01_00-00-00.zip''
       < instantOf (extensionFormat dailyRule) ''daily-2024-03-01_00-00-00.zip''"
    by blast
  from z retention_keeps_newest[where rule = "dailyRule\<lparr>maxBackupVersions := 0\<rparr>"
      and m = exampleManager and w = ?W]
  have n: "fst (removeOldBackupVersions exampleManager (dailyRule\<lparr>maxBackupVersions := 0\<rparr>) ?W) = ?W"
    by blast
  show ?thesis using p l v z o n by (simp only: r d simp_thms)
qed

text \<open>
  C7 (selection by the scan). The code does not have it for every prefix. The anchored
  pattern is built from the escaped prefix, but the name filter is given the prefix as
  it is, and a name filter reads brackets as a set of characters. For the name \<open>A[b]\<close>
  the prefix is \<open>a[b]-\<close>: the file \<open>a[b]-2024-06-01_00-00-00.zip\<close> matches the anchored
  pattern and carries a valid timestamp, but the filter \<open>a[b]-*.zip\<close> does not let it
  through (it lets \<open>ab-2024-01-01_00-00-00.zip\<close> through, which the anchored pattern then
  rejects), and the scan reports that it has found nothing. Among the entries that do
  pass the filter the scan selects as described (lemma \<open>scan_returns_latest_candidate\<close>).
\<close>

theorem scan_misses_bracket_prefix:
  "extensionFormat (fst (fst (parseRule exampleManager bracketSetting (exampleWorld bracketDirectory))))
     = ''a[b]-''
   \<and> exactMatch (formatRE ''a[b]-'') ''a[b]-2024-06-01_00-00-00.zip''
   \<and> fromString (cap1 ''a[b]-'' ''a[b]-2024-06-01_00-00-00.zip'')
       = Some \<lparr>year = 2024, month = 6, day = 1, hour = 0, minute = 0, second = 0\<rparr>
   \<and> \<not> wildcardMatch (''a[b]-'' @ ''*.zip'') ''a[b]-2024-06-01_00-00-00.zip''
   \<and> wildcardMatch (''a[b]-'' @ ''*.zip'') ''ab-2024-01-01_00-00-00.zip''
   \<and> \<not> exactMatch (formatRE ''a[b]-'') ''ab-2024-01-01_00-00-00.zip''
   \<and> fst (getMostRecentBackup exampleManager (exampleWorld bracketDirectory) ''a[b]-'' [] None)
       = (False, [], None)
   \<and> fst (getMostRecentBackup exampleManager (exampleWorld [''a[b]-2024-06-01_00-00-00.zip''])
            ''a[b]-'' [] None)
       = (False, [], None)"
  by code_simp

text \<open>
  C10 (frame of a scan that finds nothing). When no entry of the directory passes the
  name filter, matches the anchored pattern and parses to a valid date and time,
  \<open>getMostRecentBackup\<close> returns false and both reference parameters hold the values they
  had at the call.
\<close>

theorem no_match_leaves_outputs:
  assumes "\<not> (\<exists>e\<in>set (listDir w). wildcardMatch (format @ ''*.zip'') e
                 \<and> exactMatch (formatRE format) e \<and> fromString (cap1 format e) \<noteq> None)"
  shows "fst (getMostRecentBackup m w format mostRecentBackupFileName mostRecentBackupTime)
         = (False, mostRecentBackupFileName, mostRecentBackupTime)"
proof -
  have "candidates w format = []"
    using assms by (auto simp: candidates_def validEntry_def filter_empty_conv)
  then show ?thesis by (simp add: getMostRecentBackup_fst)
qed

theorem no_match_leaves_outputs_witness:
  "\<not> (\<exists>e\<in>set (listDir (exampleWorld [''daily-2024-13-01_00-00-00.zip'', ''notes.txt''])).
         wildcardMatch (''daily-'' @ ''*.zip'') e \<and> exactMatch (formatRE ''daily-'') e
         \<and> fromString (cap1 ''daily-'' e) \<noteq> None)
   \<and> fst (getMostRecentBackup exampleManager
             (exampleWorld [''daily-2024-13-01_00-00-00.zip'', ''notes.txt'']) ''daily-''
             ''previous.zip'' (Some (exampleClock 0)))
       = (False, ''previous.zip'', Some (exampleClock 0))"
proof -
  have h: "\<not> (\<exists>e\<in>set (listDir (exampleWorld [''daily-2024-13-01_00-00-00.zip'', ''notes.txt''])).
         wildcardMatch (''daily-'' @ ''*.zip'') e \<and> exactMatch (formatRE ''daily-'') e
         \<and> fromString (cap1 ''daily-'' e) \<noteq> None)"
    by code_simp
  show ?thesis
    using h no_match_leaves_outputs[OF h, of exampleManager "''previous.zip''"
        "Some (exampleClock 0)"]
    by simp
qed


text \<open>
  C9 (the stored name). The \<open>name\<close> of the rule stored for an object of the settings is
  the configured \<open>Name\<close> with every space replaced by an underscore and every other
  character as configured (the case of the letters is kept); so for a \<open>Name\<close> with a
  space the stored name differs from the configured one.
\<close>

theorem stored_name_has_underscores:
  assumes "i < length objs"
  shows "name (backupRules (fst (fst (parseSettings m (Some objs) w))) ! (length (backupRules m) + i))
           = replaceChar CHR '' '' CHR ''_'' (cfgName (objs ! i))
         \<and> length (name (backupRules (fst (fst (parseSettings m (Some objs) w)))
                            ! (length (backupRules m) + i)))
           = length (cfgName (objs ! i))
         \<and> (\<forall>j<length (cfgName (objs ! i)).
               name (backupRules (fst (fst (parseSettings m (Some objs) w)))
                       ! (length (backupRules m) + i)) ! j
               = (if cfgName (objs ! i) ! j = CHR '' '' then CHR ''_'' else cfgName (objs ! i) ! j))
         \<and> (CHR '' '' \<in> set (cfgName (objs ! i)) \<longrightarrow>
               name (backupRules (fst (fst (parseSettings m (Some objs) w)))
                       ! (length (backupRules m) + i))
               \<noteq> cfgName (objs ! i))"
proof -
  have n: "name (backupRules (fst (fst (parseSettings m (Some objs) w))) ! (length (backupRules m) + i))
           = replaceChar CHR '' '' CHR ''_'' (cfgName (objs ! i))"
    using parseRules_name_format[OF assms, of m w] by (simp add: parseSettings_rules)
  show ?thesis unfolding n
    by (auto simp: replaceChar_nth replaceChar_changes) (simp add: replaceChar_def)
qed

theorem stored_name_has_underscores_witness:
  "(0::nat) < length [dailySetting\<lparr>cfgName := ''Daily Backup''\<rparr>]
   \<and> CHR '' '' \<in> set (cfgName ([dailySetting\<lparr>cfgName := ''Daily Backup''\<rparr>] ! 0))
   \<and> name (backupRules (fst (fst (parseSettings exampleManager
              (Some [dailySetting\<lparr>cfgName := ''Daily Backup''\<rparr>]) (exampleWorld [])))) ! 0)
       = ''Daily_Backup''
   \<and> name (backupRules (fst (fst (parseSettings exampleManager
              (Some [dailySetting\<lparr>cfgName := ''Daily Backup''\<rparr>]) (exampleWorld [])))) ! 0)
       \<noteq> ''Daily Backup''
   \<and> extensionFormat (backupRules (fst (fst (parseSettings exampleManager
              (Some [dailySetting\<lparr>cfgName := ''Daily Backup''\<rparr>]) (exampleWorld [])))) ! 0)
       = ''daily_backup-''"
proof -
  have h: "(0::nat) < length [dailySetting\<lparr>cfgName := ''Daily Backup''\<rparr>]" by simp
  have s: "CHR '' '' \<in> set (cfgName ([dailySetting\<lparr>cfgName := ''Daily Backup''\<rparr>] ! 0))" by simp
  have e: "extensionFormat (backupRules (fst (fst (parseSettings exampleManager
              (Some [dailySetting\<lparr>cfgName := ''Daily Backup''\<rparr>]) (exampleWorld [])))) ! 0)
       = ''daily_backup-''"
    by code_simp
  have r: "replaceChar CHR '' '' CHR ''_'' ''Daily Backup'' = ''Daily_Backup''"
    by (simp add: replaceChar_def)
  show ?thesis
    using h s e r stored_name_has_underscores[OF h, of exampleManager "exampleWorld []"]
    by (simp add: exampleManager_def)
qed



text \<open>
  C5 (a failed open does not stop the rule). For a rule that fires, whatever the
  outcome of opening the archive, \<open>createBackup\<close> of every registered handler is called
  in the order of registration, \<open>lastBackupSeconds\<close> becomes \<open>now\<close>, and
  \<open>removeOldBackupVersions\<close> runs for the rule (its journal ends the journal of the rule,
  its directory is the resulting one). When the open fails, the handlers are called on
  the archive that is not open.
\<close>

theorem open_failure_still_runs_handlers:
  "(nowSeconds - lastBackupSeconds rule > intervalSeconds rule \<longrightarrow>
      handlerCalls (snd (backupRule m nowSeconds rule w))
        = map (\<lambda>h. CreateBackup h (backupDirectory m @ ''/'' @ archiveName rule (clock w (clockReads w)))
                        (dirExists w \<and> mayCreate w (archiveName rule (clock w (clockReads w)))))
              (backupHandlers m)
      \<and> fst (backupRule m nowSeconds rule w)
          = (rule\<lparr>lastBackupSeconds := nowSeconds\<rparr>,
             fst (removeOldBackupVersions m (rule\<lparr>lastBackupSeconds := nowSeconds\<rparr>)
                   (snd (openForWrite (archiveName rule (clock w (clockReads w)))
                           (w\<lparr>clockReads := Suc (clockReads w)\<rparr>)))))
      \<and> (\<exists>before. snd (backupRule m nowSeconds rule w)
            = before @ snd (removeOldBackupVersions m (rule\<lparr>lastBackupSeconds := nowSeconds\<rparr>)
                   (snd (openForWrite (archiveName rule (clock w (clockReads w)))
                           (w\<lparr>clockReads := Suc (clockReads w)\<rparr>))))))
   \<and> (nowSeconds - lastBackupSeconds rule > intervalSeconds rule
        \<and> \<not> (dirExists w \<and> mayCreate w (archiveName rule (clock w (clockReads w)))) \<longrightarrow>
      openedFiles (snd (backupRule m nowSeconds rule w))
        = [(backupDirectory m @ ''/'' @ archiveName rule (clock w (clockReads w)), False)]
      \<and> handlerCalls (snd (backupRule m nowSeconds rule w))
        = map (\<lambda>h. CreateBackup h (backupDirectory m @ ''/'' @ archiveName rule (clock w (clockReads w)))
                        False)
              (backupHandlers m)
      \<and> lastBackupSeconds (fst (fst (backupRule m nowSeconds rule w))) = nowSeconds
      \<and> snd (fst (backupRule m nowSeconds rule w))
          = fst (removeOldBackupVersions m (rule\<lparr>lastBackupSeconds := nowSeconds\<rparr>)
                   (w\<lparr>clockReads := Suc (clockReads w)\<rparr>))
      \<and> (\<exists>before. snd (backupRule m nowSeconds rule w)
            = before @ snd (removeOldBackupVersions m (rule\<lparr>lastBackupSeconds := nowSeconds\<rparr>)
                   (w\<lparr>clockReads := Suc (clockReads w)\<rparr>))))"
proof (intro conjI impI)
  assume a: "nowSeconds - lastBackupSeconds rule > intervalSeconds rule"
  then have d: "due nowSeconds rule" by (simp add: due_def)
  show "handlerCalls (snd (backupRule m nowSeconds rule w))
        = map (\<lambda>h. CreateBackup h (backupDirectory m @ ''/'' @ archiveName rule (clock w (clockReads w)))
                        (dirExists w \<and> mayCreate w (archiveName rule (clock w (clockReads w)))))
              (backupHandlers m)"
    using d by (simp add: backupRule_calls)
  show "fst (backupRule m nowSeconds rule w)
          = (rule\<lparr>lastBackupSeconds := nowSeconds\<rparr>,
             fst (removeOldBackupVersions m (rule\<lparr>lastBackupSeconds := nowSeconds\<rparr>)
                   (snd (openForWrite (archiveName rule (clock w (clockReads w)))
                           (w\<lparr>clockReads := Suc (clockReads w)\<rparr>)))))"
    by (rule backupRule_fire(1)[OF d])
  show "\<exists>before. snd (backupRule m nowSeconds rule w)
            = before @ snd (removeOldBackupVersions m (rule\<lparr>lastBackupSeconds := nowSeconds\<rparr>)
                   (snd (openForWrite (archiveName rule (clock w (clockReads w)))
                           (w\<lparr>clockReads := Suc (clockReads w)\<rparr>))))"
    unfolding backupRule_fire(2)[OF d] append_assoc[symmetric] by (rule exI) (rule refl)
next
  assume a: "nowSeconds - lastBackupSeconds rule > intervalSeconds rule
        \<and> \<not> (dirExists w \<and> mayCreate w (archiveName rule (clock w (clockReads w))))"
  then have d: "due nowSeconds rule" by (simp add: due_def)
  from a have f: "\<not> fst (openForWrite (archiveName rule (clock w (clockReads w)))
                           (w\<lparr>clockReads := Suc (clockReads w)\<rparr>))"
    by (simp add: openForWrite_result dirExists_def)
  have same: "snd (openForWrite (archiveName rule (clock w (clockReads w)))
                           (w\<lparr>clockReads := Suc (clockReads w)\<rparr>))
              = w\<lparr>clockReads := Suc (clockReads w)\<rparr>"
    using f by (rule openForWrite_failed)
  show "openedFiles (snd (backupRule m nowSeconds rule w))
        = [(backupDirectory m @ ''/'' @ archiveName rule (clock w (clockReads w)), False)]"
    using d a by (simp add: backupRule_opened)
  show "handlerCalls (snd (backupRule m nowSeconds rule w))
        = map (\<lambda>h. CreateBackup h (backupDirectory m @ ''/'' @ archiveName rule (clock w (clockReads w)))
                        False)
              (backupHandlers m)"
    using d a by (simp add: backupRule_calls)
  show "lastBackupSeconds (fst (fst (backupRule m nowSeconds rule w))) = nowSeconds"
    using d by (simp add: backupRule_rule)
  show "snd (fst (backupRule m nowSeconds rule w))
          = fst (removeOldBackupVersions m (rule\<lparr>lastBackupSeconds := nowSeconds\<rparr>)
                   (w\<lparr>clockReads := Suc (clockReads w)\<rparr>))"
    by (simp add: backupRule_fire(1)[OF d] same)
  show "\<exists>before. snd (backupRule m nowSeconds rule w)
            = before @ snd (removeOldBackupVersions m (rule\<lparr>lastBackupSeconds := nowSeconds\<rparr>)
                   (w\<lparr>clockReads := Suc (clockReads w)\<rparr>))"
    unfolding backupRule_fire(2)[OF d] same append_assoc[symmetric] by (rule exI) (rule refl)
qed

theorem open_failure_still_runs_handlers_witness:
  "1704067200 - lastBackupSeconds dailyRule > intervalSeconds dailyRule
   \<and> \<not> (dirExists readOnlyWorld
          \<and> mayCreate readOnlyWorld (archiveName dailyRule (clock readOnlyWorld (clockReads readOnlyWorld))))
   \<and> handlerCalls (snd (backupRule exampleManager 1704067200 dailyRule readOnlyWorld))
       = [CreateBackup ''entities'' ''/backups/backup-daily-2024-01-01_00-00-00.zip'' False,
          CreateBackup ''assets'' ''/backups/backup-daily-2024-01-01_00-00-00.zip'' False]
   \<and> lastBackupSeconds (fst (fst (backupRule exampleManager 1704067200 dailyRule readOnlyWorld)))
       = 1704067200"
proof -
  have d: "1704067200 - lastBackupSeconds dailyRule > intervalSeconds dailyRule"
    by (simp add: dailyRule_def)
  have f: "\<not> (dirExists readOnlyWorld
          \<and> mayCreate readOnlyWorld (archiveName dailyRule (clock readOnlyWorld (clockReads readOnlyWorld))))"
    by (simp add: readOnlyWorld_def exampleWorld_def deny_def)
  have a: "archiveName dailyRule (clock readOnlyWorld (clockReads readOnlyWorld))
           = ''backup-daily-2024-01-01_00-00-00.zip''"
    by code_simp
  show ?thesis
    using d f open_failure_still_runs_handlers[where nowSeconds = 1704067200 and rule = dailyRule
        and m = exampleManager and w = readOnlyWorld]
    by (simp add: a exampleManager_def)
qed

text \<open>
  C6 (the marker around a cycle), as the code has it. When \<open>running.lock\<close> cannot be
  created, \<open>persist\<close> does not call \<open>backup\<close>: manager and rules are as before, the
  directory is touched by \<open>mkpath\<close> only, no handler is called and nothing is logged. When
  it is created, the journal is the creation of the marker, then the whole journal of
  \<open>backup\<close>, then the closing of the marker and the call that removes it; \<open>backup\<close> itself
  never asks to remove the marker, which is still in the directory when \<open>backup\<close>
  returns, and it is gone afterwards where the file system permits its removal.

  Two things are not as one might expect: where the marker cannot be created the
  journal holds the failed open and no logged line; and where the marker can be created
  but not removed, the call that removes it fails and the marker stays in the directory
  after the cycle.
\<close>

theorem persist_guards_the_cycle:
  "(\<not> fst (openForWrite ''running.lock'' (mkpath w)) \<longrightarrow>
      persist m w = ((m, mkpath w), [OpenFile (backupDirectory m @ ''/running.lock'') False]))
   \<and> (fst (openForWrite ''running.lock'' (mkpath w)) \<longrightarrow>
      (\<exists>removed. snd (persist m w)
          = [OpenFile (backupDirectory m @ ''/running.lock'') True]
            @ snd (backup m (snd (openForWrite ''running.lock'' (mkpath w))))
            @ [CloseFile (backupDirectory m @ ''/running.lock''),
               RemoveFile (backupDirectory m @ ''/running.lock'') removed])
      \<and> fst (fst (persist m w))
          = fst (fst (backup m (snd (openForWrite ''running.lock'' (mkpath w)))))
      \<and> snd (fst (persist m w))
          = snd (removeFile ''running.lock''
                   (snd (fst (backup m (snd (openForWrite ''running.lock'' (mkpath w)))))))
      \<and> backupDirectory m @ ''/running.lock''
          \<notin> set (attemptedRemovals (snd (backup m (snd (openForWrite ''running.lock'' (mkpath w))))))
      \<and> ''running.lock''
          \<in> set (listDir (snd (fst (backup m (snd (openForWrite ''running.lock'' (mkpath w)))))))
      \<and> (mayRemove w ''running.lock'' \<longrightarrow>
            ''running.lock'' \<notin> set (listDir (snd (fst (persist m w))))))"
proof (intro conjI impI)
  assume "\<not> fst (openForWrite ''running.lock'' (mkpath w))"
  then show "persist m w = ((m, mkpath w), [OpenFile (backupDirectory m @ ''/running.lock'') False])"
    by (rule persist_failed)
next
  assume o: "fst (openForWrite ''running.lock'' (mkpath w))"
  show "\<exists>removed. snd (persist m w)
          = [OpenFile (backupDirectory m @ ''/running.lock'') True]
            @ snd (backup m (snd (openForWrite ''running.lock'' (mkpath w))))
            @ [CloseFile (backupDirectory m @ ''/running.lock''),
               RemoveFile (backupDirectory m @ ''/running.lock'') removed]"
    unfolding persist_opened[OF o] snd_conv by (rule exI) (rule refl)
  show "fst (fst (persist m w))
          = fst (fst (backup m (snd (openForWrite ''running.lock'' (mkpath w)))))"
    by (simp add: persist_opened[OF o])
  show "snd (fst (persist m w))
          = snd (removeFile ''running.lock''
                   (snd (fst (backup m (snd (openForWrite ''running.lock'' (mkpath w)))))))"
    by (simp add: persist_opened[OF o])
  show "backupDirectory m @ ''/running.lock''
          \<notin> set (attemptedRemovals (snd (backup m (snd (openForWrite ''running.lock'' (mkpath w))))))"
    by (rule backup_not_lock)
  show "''running.lock''
          \<in> set (listDir (snd (fst (backup m (snd (openForWrite ''running.lock'' (mkpath w)))))))"
    by (rule backup_keeps_lock) (rule openForWrite_present[OF o])
next
  assume o: "fst (openForWrite ''running.lock'' (mkpath w))"
    and r: "mayRemove w ''running.lock''"
  have "mayRemove (snd (fst (backup m (snd (openForWrite ''running.lock'' (mkpath w))))))
          ''running.lock''"
    using r by (simp add: backup_mayRemove openForWrite_mayRemove mkpath_mayRemove)
  then show "''running.lock'' \<notin> set (listDir (snd (fst (persist m w))))"
    by (simp add: persist_opened[OF o] removeFile_gone)
qed

theorem persist_silent_and_marker_may_stay:
  "\<not> fst (openForWrite ''running.lock'' (mkpath readOnlyWorld))
   \<and> snd (persist (exampleManager\<lparr>backupRules := [dailyRule]\<rparr>) readOnlyWorld)
       = [OpenFile ''/backups/running.lock'' False]
   \<and> filter isLog (snd (persist (exampleManager\<lparr>backupRules := [dailyRule]\<rparr>) readOnlyWorld)) = []
   \<and> fst (openForWrite ''running.lock'' (mkpath (stickyWorld [])))
   \<and> last (snd (persist (exampleManager\<lparr>backupRules := [dailyRule]\<rparr>) (stickyWorld [])))
       = RemoveFile ''/backups/running.lock'' False
   \<and> listDir (snd (fst (persist (exampleManager\<lparr>backupRules := [dailyRule]\<rparr>) (stickyWorld []))))
       = [''running.lock'', ''backup-daily-2024-01-01_00-00-01.zip'']"
  by code_simp

theorem persist_guards_the_cycle_witness:
  "\<not> fst (openForWrite ''running.lock'' (mkpath readOnlyWorld))
   \<and> persist (exampleManager\<lparr>backupRules := [dailyRule]\<rparr>) readOnlyWorld
       = ((exampleManager\<lparr>backupRules := [dailyRule]\<rparr>, mkpath readOnlyWorld),
          [OpenFile ''/backups/running.lock'' False])
   \<and> fst (openForWrite ''running.lock'' (mkpath (exampleWorld [])))
   \<and> mayRemove (exampleWorld []) ''running.lock''
   \<and> ''running.lock''
        \<notin> set (listDir (snd (fst (persist (exampleManager\<lparr>backupRules := [dailyRule]\<rparr>)
                                       (exampleWorld [])))))
   \<and> backupRules (fst (fst (persist (exampleManager\<lparr>backupRules := [dailyRule]\<rparr>) (exampleWorld []))))
       = backupRules (fst (fst (backup (exampleManager\<lparr>backupRules := [dailyRule]\<rparr>)
                                  (snd (openForWrite ''running.lock'' (mkpath (exampleWorld [])))))))"
proof -
  have f: "\<not> fst (openForWrite ''running.lock'' (mkpath readOnlyWorld))" by code_simp
  have o: "fst (openForWrite ''running.lock'' (mkpath (exampleWorld [])))" by code_simp
  have r: "mayRemove (exampleWorld []) ''running.lock''" by code_simp
  have d: "backupDirectory (exampleManager\<lparr>backupRules := [dailyRule]\<rparr>) = ''/backups''"
    by (simp add: exampleManager_def)
  note a = persist_guards_the_cycle[where m = "exampleManager\<lparr>backupRules := [dailyRule]\<rparr>"
        and w = readOnlyWorld, THEN conjunct1, rule_format, OF f]
  note b = persist_guards_the_cycle[where m = "exampleManager\<lparr>backupRules := [dailyRule]\<rparr>"
        and w = "exampleWorld []", THEN conjunct2, rule_format, OF o]
  from b have b2: "fst (fst (persist (exampleManager\<lparr>backupRules := [dailyRule]\<rparr>) (exampleWorld [])))
      = fst (fst (backup (exampleManager\<lparr>backupRules := [dailyRule]\<rparr>)
                    (snd (openForWrite ''running.lock'' (mkpath (exampleWorld []))))))"
    by blast
  from b r have b6: "''running.lock''
        \<notin> set (listDir (snd (fst (persist (exampleManager\<lparr>backupRules := [dailyRule]\<rparr>)
                                       (exampleWorld [])))))"
    by blast
  from a have a1: "persist (exampleManager\<lparr>backupRules := [dailyRule]\<rparr>) readOnlyWorld
       = ((exampleManager\<lparr>backupRules := [dailyRule]\<rparr>, mkpath readOnlyWorld),
          [OpenFile ''/backups/running.lock'' False])"
    by (simp add: d)
  show ?thesis
    using f o r a1 b6 by (simp only: b2 simp_thms)
qed

text \<open>
  C1 (round trip between \<open>backup\<close> and the scan). The code does not have it: \<open>backup\<close>
  writes \<open>backup-\<close>, prefix, timestamp, \<open>.zip\<close>, and \<open>getMostRecentBackup\<close>, called with the
  prefix of the rule, looks for prefix, timestamp, \<open>.zip\<close>. For the rule \<open>Daily\<close> the prefix
  is \<open>daily-\<close>; in the directory of the scenario the scan finds nothing, and it finds
  nothing either in the directory that \<open>backup\<close> has just written for the rule.
\<close>

theorem scan_misses_written_archives:
  "extensionFormat (fst (fst (parseRule exampleManager dailySetting (exampleWorld exampleScenarioDirectory))))
     = ''daily-''
   \<and> fst (getMostRecentBackup exampleManager (exampleWorld exampleScenarioDirectory) ''daily-'' [] None)
       = (False, [], None)
   \<and> lastBackupSeconds (fst (fst (parseRule exampleManager dailySetting
                                     (exampleWorld exampleScenarioDirectory)))) = 0
   \<and> listDir (snd (fst (backup (exampleManager\<lparr>backupRules := [dailyRule]\<rparr>) (exampleWorld []))))
       = [''backup-daily-2024-01-01_00-00-01.zip'']
   \<and> fst (getMostRecentBackup exampleManager
             (snd (fst (backup (exampleManager\<lparr>backupRules := [dailyRule]\<rparr>) (exampleWorld []))))
             ''daily-'' [] None)
       = (False, [], None)"
proof -
  have a: "extensionFormat (fst (fst (parseRule exampleManager dailySetting
                                        (exampleWorld exampleScenarioDirectory)))) = ''daily-''"
    by code_simp
  have b: "fst (getMostRecentBackup exampleManager (exampleWorld exampleScenarioDirectory)
                  ''daily-'' [] None) = (False, [], None)"
    by code_simp
  have c: "lastBackupSeconds (fst (fst (parseRule exampleManager dailySetting
                                     (exampleWorld exampleScenarioDirectory)))) = 0"
    by code_simp
  have w: "snd (fst (backup (exampleManager\<lparr>backupRules := [dailyRule]\<rparr>) (exampleWorld [])))
           = (exampleWorld [''backup-daily-2024-01-01_00-00-01.zip''])\<lparr>clockReads := 2\<rparr>"
    using exampleCycle1 by (simp add: exampleWorld_start[symmetric])
  have d: "fst (getMostRecentBackup exampleManager
                  ((exampleWorld [''backup-daily-2024-01-01_00-00-01.zip''])\<lparr>clockReads := 2\<rparr>)
                  ''daily-'' [] None) = (False, [], None)"
    by code_simp
  show ?thesis unfolding w using a b c d by (simp add: exampleWorld_listDir)
qed

text \<open>
  C2 (four cycles of the rule \<open>Daily\<close>). The first cycle writes one archive named
  \<open>backup-daily-\<close>, timestamp, \<open>.zip\<close>. After four cycles in which the rule fires, the code
  has four archives in the directory, not three: \<open>removeOldBackupVersions\<close> lists
  \<open>daily-*.zip\<close>, which none of the written names matches.
\<close>

theorem four_cycles_leave_four_archives:
  "backupRules (fst (fst (parseSettings exampleManager (Some [dailySetting]) (exampleWorld []))))
     = [dailyRule]
   \<and> listDir (snd (fireCycles 1 (exampleManager\<lparr>backupRules := [dailyRule]\<rparr>) (exampleWorld [])))
       = [''backup-daily-2024-01-01_00-00-01.zip'']
   \<and> listDir (snd (fireCycles 4 (exampleManager\<lparr>backupRules := [dailyRule]\<rparr>) (exampleWorld [])))
       = [''backup-daily-2024-01-01_00-00-01.zip'', ''backup-daily-2024-01-03_00-00-01.zip'',
          ''backup-daily-2024-01-05_00-00-01.zip'', ''backup-daily-2024-01-07_00-00-01.zip'']
   \<and> map lastBackupSeconds
         (backupRules (fst (fireCycles 4 (exampleManager\<lparr>backupRules := [dailyRule]\<rparr>) (exampleWorld []))))
       = [1704585600]
   \<and> entryInfoList (''daily-'' @ ''*.zip'')
         (snd (fireCycles 4 (exampleManager\<lparr>backupRules := [dailyRule]\<rparr>) (exampleWorld []))) = []"
proof -
  have p: "backupRules (fst (fst (parseSettings exampleManager (Some [dailySetting]) (exampleWorld []))))
           = [dailyRule]"
    by code_simp
  have s: "exampleWorld [] = (exampleWorld [])\<lparr>clockReads := 0\<rparr>" by (rule exampleWorld_start)
  have one: "fireCycles 1 (exampleManager\<lparr>backupRules := [dailyRule]\<rparr>) (exampleWorld [])
     = (exampleManager\<lparr>backupRules := [dailyRule\<lparr>lastBackupSeconds := 1704067200\<rparr>]\<rparr>,
        (exampleWorld [''backup-daily-2024-01-01_00-00-01.zip''])\<lparr>clockReads := 2\<rparr>)"
    using exampleFourCycles(1) by (simp only: s[symmetric])
  have four: "fireCycles 4 (exampleManager\<lparr>backupRules := [dailyRule]\<rparr>) (exampleWorld [])
     = (exampleManager\<lparr>backupRules := [dailyRule\<lparr>lastBackupSeconds := 1704585600\<rparr>]\<rparr>,
        (exampleWorld [''backup-daily-2024-01-01_00-00-01.zip'', ''backup-daily-2024-01-03_00-00-01.zip'',
                       ''backup-daily-2024-01-05_00-00-01.zip'', ''backup-daily-2024-01-07_00-00-01.zip''])
          \<lparr>clockReads := 8\<rparr>)"
    using exampleFourCycles(2) by (simp only: s[symmetric])
  show ?thesis unfolding one four
    using p dailyRule_listing(4) by (simp add: exampleWorld_listDir)
qed

end
